theory Spec2Isabelle
  imports Main "HOL-Library.Sublist"
begin

section \<open>Strings\<close>

text \<open>
  A JavaScript string is modelled as a \<open>string\<close>, a list of characters with codes
  below 256. \<open>String.prototype.startsWith\<close> and \<open>endsWith\<close> compare a slice of the
  receiver with the argument.
\<close>

definition dq :: char where
  "dq = CHR 0x22"

definition sq :: char where
  "sq = CHR 0x27"

definition nl :: string where
  "nl = [CHR 0x0A]"

definition startsWith :: "string \<Rightarrow> string \<Rightarrow> bool" where
  "startsWith s p = (take (length p) s = p)"

definition endsWith :: "string \<Rightarrow> string \<Rightarrow> bool" where
  "endsWith s p = (length p \<le> length s \<and> drop (length s - length p) s = p)"

section \<open>Scope filter\<close>

text \<open>
  \<^verbatim>\<open>
  const inScope = subdomain => {
    return !subdomain.startsWith('*.') && domains.some(domain => {
      return subdomain === domain || subdomain.endsWith('.' + domain)
    })
  }
  \<close>
  The closure variable \<open>domains\<close> is the first argument.
\<close>

definition inScope :: "string list \<Rightarrow> string \<Rightarrow> bool" where
  "inScope domains subdomain =
     (\<not> startsWith subdomain ''*.'' \<and>
      list_ex (\<lambda>domain. subdomain = domain \<or> endsWith subdomain (''.'' @ domain)) domains)"

section \<open>Regular expressions\<close>

text \<open>
  The fragment of ECMAScript regular expressions that the two patterns of the program
  use, with the backtracking semantics of the language: a matcher takes the state
  (the input that remains, and the captures so far, the latest first) and a
  continuation, and returns the first success in priority order. The lazy quantifiers \<open>*?\<close> and \<open>+?\<close> occur in
  the program on character classes only, and are modelled on those.
\<close>

text \<open>
  The items of a character class: a literal character, \<open>\s\<close>, \<open>\w\<close> and \<open>\d\<close>. Without
  the flags \<open>i\<close> and \<open>u\<close>, \<open>\w\<close> is \<open>[A-Za-z0-9_]\<close> and \<open>\d\<close> is \<open>[0-9]\<close>; of the white
  space of \<open>\s\<close>, the characters below 256 are tab, line feed, vertical tab, form
  feed, carriage return, space and the no-break space.
\<close>

datatype citem = CChar char | CSpace | CWord | CDigit

definition is_space :: "char \<Rightarrow> bool" where
  "is_space c = (c \<in> set [CHR 0x09, CHR 0x0A, CHR 0x0B, CHR 0x0C, CHR 0x0D, CHR 0x20, CHR 0xA0])"

definition is_digit :: "char \<Rightarrow> bool" where
  "is_digit c = (let n = (of_char c :: nat) in 48 \<le> n \<and> n \<le> 57)"

definition is_word :: "char \<Rightarrow> bool" where
  "is_word c = (let n = (of_char c :: nat) in
     (97 \<le> n \<and> n \<le> 122) \<or> (65 \<le> n \<and> n \<le> 90) \<or> (48 \<le> n \<and> n \<le> 57) \<or> n = 95)"

fun citem_has :: "citem \<Rightarrow> char \<Rightarrow> bool" where
  "citem_has (CChar d) c = (c = d)"
| "citem_has CSpace c = is_space c"
| "citem_has CWord c = is_word c"
| "citem_has CDigit c = is_digit c"

text \<open>A class \<open>[...]\<close> is a list of items; the flag is set for a negated class \<open>[^...]\<close>.\<close>

definition in_class :: "bool \<Rightarrow> citem list \<Rightarrow> char \<Rightarrow> bool" where
  "in_class neg items c = (list_ex (\<lambda>i. citem_has i c) items \<noteq> neg)"

datatype re =
    Chars string
  | Class bool "citem list"
  | Seq re re
  | Alt re re
  | Opt re
  | StarLazy bool "citem list"
  | PlusLazy bool "citem list"
  | Group nat re
  | Backref nat
  | Lookahead re

type_synonym captures = "(nat \<times> string) list"
type_synonym mstate = "string \<times> captures"

text \<open>\<open>c*?\<close>: first try the continuation, and take one more character only when it fails.\<close>

primrec lazy_star :: "(char \<Rightarrow> bool) \<Rightarrow> string \<Rightarrow> (string \<Rightarrow> mstate option) \<Rightarrow> mstate option" where
  "lazy_star p [] k = k []"
| "lazy_star p (a # as) k =
     (case k (a # as) of
        Some y \<Rightarrow> Some y
      | None \<Rightarrow> if p a then lazy_star p as k else None)"

primrec rmatch :: "re \<Rightarrow> mstate \<Rightarrow> (mstate \<Rightarrow> mstate option) \<Rightarrow> mstate option" where
  "rmatch (Chars w) x k =
     (if take (length w) (fst x) = w then k (drop (length w) (fst x), snd x) else None)"
| "rmatch (Class neg items) x k =
     (case fst x of
        [] \<Rightarrow> None
      | a # as \<Rightarrow> if in_class neg items a then k (as, snd x) else None)"
| "rmatch (Seq r1 r2) x k = rmatch r1 x (\<lambda>y. rmatch r2 y k)"
| "rmatch (Alt r1 r2) x k =
     (case rmatch r1 x k of Some y \<Rightarrow> Some y | None \<Rightarrow> rmatch r2 x k)"
| "rmatch (Opt r) x k =
     (case rmatch r x k of Some y \<Rightarrow> Some y | None \<Rightarrow> k x)"
| "rmatch (StarLazy neg items) x k =
     lazy_star (in_class neg items) (fst x) (\<lambda>rest. k (rest, snd x))"
| "rmatch (PlusLazy neg items) x k =
     (case fst x of
        [] \<Rightarrow> None
      | a # as \<Rightarrow>
          if in_class neg items a
          then lazy_star (in_class neg items) as (\<lambda>rest. k (rest, snd x))
          else None)"
| "rmatch (Group n r) x k =
     rmatch r x (\<lambda>y. k (fst y, (n, take (length (fst x) - length (fst y)) (fst x)) # snd y))"
| "rmatch (Backref n) x k =
     (case map_of (snd x) n of
        None \<Rightarrow> k x
      | Some w \<Rightarrow> if take (length w) (fst x) = w then k (drop (length w) (fst x), snd x) else None)"
| "rmatch (Lookahead r) x k =
     (case rmatch r x Some of None \<Rightarrow> None | Some y \<Rightarrow> k (fst x, snd y))"

text \<open>
  The match object that \<open>exec\<close> returns: \<open>index\<close> is where the match starts in the input,
  group 0 is the whole match.
\<close>

record rmatch_result =
  index :: nat
  groups :: captures

text \<open>
  \<open>regex.exec(string)\<close> of a global regex tries each start position from \<open>lastIndex\<close>
  on. Here \<open>i\<close> is \<open>lastIndex\<close> and the string argument is the input from there; the
  result is the match and the input after it (the new \<open>lastIndex\<close> is where that
  begins). \<open>None\<close> is JavaScript's null, which also resets \<open>lastIndex\<close> to 0.
\<close>

fun exec_from :: "re \<Rightarrow> nat \<Rightarrow> string \<Rightarrow> (rmatch_result \<times> string) option" where
  "exec_from r i [] =
     (case rmatch r ([], []) Some of
        None \<Rightarrow> None
      | Some (rest, caps) \<Rightarrow> Some (\<lparr>index = i, groups = (0, []) # caps\<rparr>, rest))"
| "exec_from r i (a # as) =
     (case rmatch r (a # as, []) Some of
        None \<Rightarrow> exec_from r (Suc i) as
      | Some (rest, caps) \<Rightarrow>
          Some (\<lparr>index = i,
                 groups = (0, take (length (a # as) - length rest) (a # as)) # caps\<rparr>, rest))"

text \<open>
  \<^verbatim>\<open>
  const matchAll = (regex, string, cb) => {
    let match
    while ((match = regex.exec(string))) {
      cb(match)
    }
  }
  \<close>
  The callback acts on the program state \<open>'s\<close>. When a match is empty at
  \<open>lastIndex\<close>, \<open>lastIndex\<close> does not move and the loop of the source never ends: that is
  the result \<open>None\<close>.
\<close>

function matchAll_from :: "re \<Rightarrow> nat \<Rightarrow> string \<Rightarrow> (rmatch_result \<Rightarrow> 's \<Rightarrow> 's) \<Rightarrow> 's \<Rightarrow> 's option" where
  "matchAll_from r i s cb st =
     (case exec_from r i s of
        None \<Rightarrow> Some st
      | Some (m, rest) \<Rightarrow>
          if length rest < length s
          then matchAll_from r (i + (length s - length rest)) rest cb (cb m st)
          else None)"
  by pat_completeness auto
termination
  by (relation "measure (\<lambda>(r, i, s, cb, st). length s)") auto

text \<open>
  A loop starts with \<open>lastIndex = 0\<close>: the two regex objects are used by \<open>matchAll\<close>
  only, each loop runs without interruption until \<open>exec\<close> returns null, which resets
  \<open>lastIndex\<close>, and the callbacks do not throw.
\<close>

definition matchAll :: "re \<Rightarrow> string \<Rightarrow> (rmatch_result \<Rightarrow> 's \<Rightarrow> 's) \<Rightarrow> 's \<Rightarrow> 's option" where
  "matchAll r s cb st = matchAll_from r 0 s cb st"

text \<open>
  Reading a group of a match: a group that did not take part is \<open>undefined\<close>, which
  both uses in the program turn into the string \<open>undefined\<close>.
\<close>

definition grp :: "rmatch_result \<Rightarrow> nat \<Rightarrow> string" where
  "grp m n = (case map_of (groups m) n of None \<Rightarrow> ''undefined'' | Some w \<Rightarrow> w)"

text \<open>
  \<^verbatim>\<open>
  const regex = {
    path: /("|')(\/[\w\d?&=#.!:_-][\w\d?/&=#.!:_-]*?)\1/g,
    url:  /(https?:\/\/[^\s,'"|()<>[\]]+?)(?=https?:\/\/|[\s,'"|()<>[\]])/g
  }
  \<close>
\<close>

definition path_first :: "citem list" where
  "path_first = [CWord, CDigit, CChar CHR ''?'', CChar CHR ''&'', CChar CHR ''='', CChar CHR ''#'',
     CChar CHR ''.'', CChar CHR ''!'', CChar CHR '':'', CChar CHR ''_'', CChar CHR ''-'']"

definition path_rest :: "citem list" where
  "path_rest = [CWord, CDigit, CChar CHR ''?'', CChar CHR ''/'', CChar CHR ''&'', CChar CHR ''='',
     CChar CHR ''#'', CChar CHR ''.'', CChar CHR ''!'', CChar CHR '':'', CChar CHR ''_'', CChar CHR ''-'']"

definition url_delim :: "citem list" where
  "url_delim = [CSpace, CChar CHR '','', CChar sq, CChar dq, CChar CHR ''|'', CChar CHR ''('',
     CChar CHR '')'', CChar CHR ''<'', CChar CHR ''>'', CChar CHR ''['', CChar CHR '']'']"

definition regex_path :: re where
  "regex_path =
     Seq (Group 1 (Alt (Chars [dq]) (Chars [sq])))
      (Seq (Group 2 (Seq (Chars ''/'') (Seq (Class False path_first) (StarLazy False path_rest))))
        (Backref 1))"

definition regex_url :: re where
  "regex_url =
     Seq (Group 1 (Seq (Chars ''http'') (Seq (Opt (Chars ''s'')) (Seq (Chars ''://'')
            (PlusLazy True url_delim)))))
      (Lookahead (Alt (Seq (Chars ''http'') (Seq (Opt (Chars ''s'')) (Chars ''://'')))
                      (Class False url_delim)))"

text \<open>
  The matches that one \<open>matchAll\<close> loop hands to its callback, in order, and the two
  scans of the program with the group that their callbacks destructure:
  \<open>([, url])\<close> is group 1 of \<open>regex.url\<close> and \<open>([,, path])\<close> is group 2 of \<open>regex.path\<close>.
\<close>

function matches_from :: "re \<Rightarrow> nat \<Rightarrow> string \<Rightarrow> rmatch_result list option" where
  "matches_from r i s =
     (case exec_from r i s of
        None \<Rightarrow> Some []
      | Some (m, rest) \<Rightarrow>
          if length rest < length s
          then map_option ((#) m) (matches_from r (i + (length s - length rest)) rest)
          else None)"
  by pat_completeness auto
termination
  by (relation "measure (\<lambda>(r, i, s). length s)") auto

definition all_matches :: "re \<Rightarrow> string \<Rightarrow> rmatch_result list option" where
  "all_matches r s = matches_from r 0 s"

definition extractUrls :: "string \<Rightarrow> string list option" where
  "extractUrls text = map_option (map (\<lambda>m. grp m 1)) (all_matches regex_url text)"

definition extractPaths :: "string \<Rightarrow> string list option" where
  "extractPaths text = map_option (map (\<lambda>m. grp m 2)) (all_matches regex_path text)"

text \<open>The shape of a URL match, and what the lookahead asks of the input after it.\<close>

definition url_shape :: "string \<Rightarrow> bool" where
  "url_shape w = (\<exists>b. (w = ''http://'' @ b \<or> w = ''https://'' @ b) \<and> b \<noteq> [] \<and>
     (\<forall>c\<in>set b. \<not> in_class False url_delim c))"

definition url_follow :: "string \<Rightarrow> bool" where
  "url_follow rest = (prefix ''http://'' rest \<or> prefix ''https://'' rest \<or>
     (\<exists>a as. rest = a # as \<and> in_class False url_delim a))"

text \<open>The shape of a path match (group 2 of \<open>regex.path\<close>).\<close>

definition path_shape :: "string \<Rightarrow> bool" where
  "path_shape w = (\<exists>c t. w = CHR ''/'' # c # t \<and> in_class False path_first c \<and>
     (\<forall>x\<in>set t. in_class False path_rest x))"

text \<open>A regex is consuming when none of its matches is empty.\<close>

definition consuming :: "re \<Rightarrow> bool" where
  "consuming r = (\<forall>t rest caps. rmatch r (t, []) Some = Some (rest, caps) \<longrightarrow>
     (\<exists>w. w \<noteq> [] \<and> t = w @ rest))"

section \<open>The response handler\<close>

text \<open>
  The platform functions that the handler calls and that are not part of the program:
  the constructor \<open>new URL(s)\<close> (\<open>None\<close> when it throws) with the three properties of
  a URL object that the program reads, \<open>JSON.stringify\<close> on the headers object, and
  \<open>path.parse(p).ext\<close>.
\<close>

record url =
  href :: string
  hostname :: string
  pathname :: string

record platform =
  new_URL :: "string \<Rightarrow> url option"
  JSON_stringify :: "(string \<times> string) list \<Rightarrow> string"
  path_ext :: "string \<Rightarrow> string"

text \<open>
  A response of the page: \<open>resp.url()\<close>, \<open>resp.headers()\<close>, and what the promise
  \<open>resp.text()\<close> settles to (\<open>None\<close> when it rejects).
\<close>

record response =
  resp_url :: string
  resp_headers :: "(string \<times> string) list"
  resp_text :: "string option"

text \<open>The options of the run after their normalisation: the two arrays of the action.\<close>

record config =
  domains :: "string list"
  extensions :: "string list"

text \<open>
  The state that the handlers share: the set \<open>uniqueDomains\<close> and the three write
  streams. The streams are modelled by the list of the \<open>write\<close> calls of the run, in
  the order they are made, each with its stream.
\<close>

datatype stream = Paths | Subdomains | Urls

record state =
  uniqueDomains :: "string set"
  written :: "(stream \<times> string) list"

definition initial :: state where
  "initial = \<lparr>uniqueDomains = {}, written = []\<rparr>"

definition stream_write :: "stream \<Rightarrow> string \<Rightarrow> state \<Rightarrow> state" where
  "stream_write k chunk st = st\<lparr>written := written st @ [(k, chunk)]\<rparr>"

text \<open>The three kinds of finding are the lines written to the three streams.\<close>

definition SubdomainFinding :: "string \<Rightarrow> stream \<times> string" where
  "SubdomainFinding h = (Subdomains, h @ nl)"

definition UrlFinding :: "string \<Rightarrow> stream \<times> string" where
  "UrlFinding u = (Urls, u @ nl)"

definition PathFinding :: "string \<Rightarrow> string \<Rightarrow> stream \<times> string" where
  "PathFinding source p = (Paths, source @ '' -> '' @ p @ nl)"

text \<open>
  \<^verbatim>\<open>
  const handlePath = async (source, path) => {
    streams.paths.write(source + ' -> ' + path + '\n')
  }
  \<close>
\<close>

definition handlePath :: "string \<Rightarrow> string \<Rightarrow> state \<Rightarrow> state" where
  "handlePath source p st = stream_write Paths (source @ '' -> '' @ p @ nl) st"

text \<open>
  \<^verbatim>\<open>
  const handleURL = async url => {
    if (inScope(url.hostname)) {
      if (!uniqueDomains.has(url.hostname)) {
        uniqueDomains.add(url.hostname)
        streams.subdomains.write(url.hostname + '\n')
      }
      streams.urls.write(url.href + '\n')
    }
  }
  \<close>
  Neither handler awaits anything, so each call runs to its end when it is made.
\<close>

definition handleURL :: "string list \<Rightarrow> url \<Rightarrow> state \<Rightarrow> state" where
  "handleURL ds u st =
     (if inScope ds (hostname u)
      then stream_write Urls (href u @ nl)
             (if hostname u \<notin> uniqueDomains st
              then stream_write Subdomains (hostname u @ nl)
                     (st\<lparr>uniqueDomains := insert (hostname u) (uniqueDomains st)\<rparr>)
              else st)
      else st)"

text \<open>
  The callbacks given to \<open>matchAll\<close>:
  \<^verbatim>\<open>
  ([, url]) => {
    try { url = new URL(url) } catch { return }
    handleURL(url)
  }
  ([,, path]) => handlePath(url.href, path)
  \<close>
\<close>

definition on_url_match :: "platform \<Rightarrow> string list \<Rightarrow> rmatch_result \<Rightarrow> state \<Rightarrow> state" where
  "on_url_match P ds m st =
     (case new_URL P (grp m 1) of None \<Rightarrow> st | Some u \<Rightarrow> handleURL ds u st)"

definition on_path_match :: "url \<Rightarrow> rmatch_result \<Rightarrow> state \<Rightarrow> state" where
  "on_path_match u m st = handlePath (href u) (grp m 2) st"

text \<open>
  The handler of the \<open>response\<close> event is an async function with one \<open>await\<close>, on
  \<open>resp.text()\<close>. It is modelled in two parts, each of which runs without
  interruption. The first part runs when the event is delivered, up to the \<open>await\<close>:
  \<^verbatim>\<open>
  let url
  try { url = new URL(resp.url()) } catch { return }
  handleURL(url)
  const headers = JSON.stringify(resp.headers())
  matchAll(regex.url, headers, ([, url]) => { ... })
  const { ext } = path.parse(url.pathname)
  if (ext && !extensions.includes(ext)) return
  \<close>
  Its result is the new state together with the URL object when the handler goes on to
  call \<open>resp.text()\<close>, and with \<open>None\<close> when it has returned before that. The outer
  \<open>None\<close> is a handler that never returns.
\<close>

definition response_head :: "platform \<Rightarrow> config \<Rightarrow> response \<Rightarrow> state \<Rightarrow> (state \<times> url option) option" where
  "response_head P cfg resp st =
     (case new_URL P (resp_url resp) of
        None \<Rightarrow> Some (st, None)
      | Some u \<Rightarrow>
          (case matchAll regex_url (JSON_stringify P (resp_headers resp))
                  (on_url_match P (domains cfg)) (handleURL (domains cfg) u st) of
             None \<Rightarrow> None
           | Some st' \<Rightarrow>
               let ext = path_ext P (pathname u) in
               if ext \<noteq> [] \<and> ext \<notin> set (extensions cfg)
               then Some (st', None)
               else Some (st', Some u)))"

text \<open>
  The second part runs when the promise has settled:
  \<^verbatim>\<open>
  let text
  try { text = await resp.text() } catch { return }
  matchAll(regex.url, text, ([, url]) => { ... })
  matchAll(regex.path, text, ([,, path]) => handlePath(url.href, path))
  \<close>
\<close>

definition response_body :: "platform \<Rightarrow> config \<Rightarrow> url \<Rightarrow> string option \<Rightarrow> state \<Rightarrow> state option" where
  "response_body P cfg u body st =
     (case body of
        None \<Rightarrow> Some st
      | Some text \<Rightarrow>
          (case matchAll regex_url text (on_url_match P (domains cfg)) st of
             None \<Rightarrow> None
           | Some st' \<Rightarrow> matchAll regex_path text (on_path_match u) st'))"

text \<open>One response handled from its event to its end, with nothing in between.\<close>

definition handleResponse :: "platform \<Rightarrow> config \<Rightarrow> response \<Rightarrow> state \<Rightarrow> state option" where
  "handleResponse P cfg resp st =
     (case response_head P cfg resp st of
        None \<Rightarrow> None
      | Some (st', None) \<Rightarrow> Some st'
      | Some (st', Some u) \<Rightarrow> response_body P cfg u (resp_text resp) st')"

text \<open>
  A run is a sequence of steps: a response event that starts a handler, or the body
  of a response settling for a handler that waits. Handlers of several responses may
  wait at the same time, so the steps of different responses interleave.
\<close>

datatype step = Event response | Settled url "string option"

fun do_step :: "platform \<Rightarrow> config \<Rightarrow> step \<Rightarrow> state \<Rightarrow> state option" where
  "do_step P cfg (Event resp) st = map_option fst (response_head P cfg resp st)"
| "do_step P cfg (Settled u body) st = response_body P cfg u body st"

fun run_steps :: "platform \<Rightarrow> config \<Rightarrow> step list \<Rightarrow> state \<Rightarrow> state option" where
  "run_steps P cfg [] st = Some st"
| "run_steps P cfg (x # xs) st =
     (case do_step P cfg x st of None \<Rightarrow> None | Some st' \<Rightarrow> run_steps P cfg xs st')"

text \<open>The writes that a state has beyond an earlier one.\<close>

definition emitted :: "state \<Rightarrow> state \<Rightarrow> (stream \<times> string) list" where
  "emitted st st' = drop (length (written st)) (written st')"

text \<open>What one call of \<open>handleURL\<close> writes, in the state where it is made.\<close>

definition url_writes :: "string list \<Rightarrow> url \<Rightarrow> state \<Rightarrow> (stream \<times> string) list" where
  "url_writes ds u st =
     (if inScope ds (hostname u)
      then (if hostname u \<in> uniqueDomains st then [] else [SubdomainFinding (hostname u)])
           @ [UrlFinding (href u)]
      else [])"

text \<open>
  The invariant of the set \<open>uniqueDomains\<close>: it holds the hostnames whose line was written
  to the subdomains stream, and no such line was written twice.
\<close>

definition dedup_inv :: "state \<Rightarrow> bool" where
  "dedup_inv st = (\<forall>h. (h \<in> uniqueDomains st \<longleftrightarrow> SubdomainFinding h \<in> set (written st)) \<and>
     count_list (written st) (SubdomainFinding h) \<le> 1)"

text \<open>
  The lines that the scan of a text for URLs can write: those of the URLs that parse
  and whose hostname is in scope.
\<close>

definition url_findings_of :: "platform \<Rightarrow> string list \<Rightarrow> string \<Rightarrow> (stream \<times> string) set" where
  "url_findings_of P ds text =
     {w. \<exists>raws raw v. extractUrls text = Some raws \<and> raw \<in> set raws \<and> new_URL P raw = Some v \<and>
        inScope ds (hostname v) \<and> (w = SubdomainFinding (hostname v) \<or> w = UrlFinding (href v))}"

text \<open>The test \<open>ext && !extensions.includes(ext)\<close> on the path of the response URL.\<close>

definition skips_body :: "platform \<Rightarrow> config \<Rightarrow> url \<Rightarrow> bool" where
  "skips_body P cfg u =
     (path_ext P (pathname u) \<noteq> [] \<and> path_ext P (pathname u) \<notin> set (extensions cfg))"

text \<open>
  Following the words of the specification (section 4.3, steps 2 to 4) rather than the
  code: the findings of a list of candidate URL strings, handled in order, from the set
  of the hostnames seen so far. A candidate that does not parse, or whose hostname is
  out of scope, gives nothing; one in scope gives the subdomain finding of its hostname
  when that is new, and always its url finding.
\<close>

fun spec_url_findings :: "platform \<Rightarrow> string list \<Rightarrow> string set \<Rightarrow> string list \<Rightarrow> (stream \<times> string) list" where
  "spec_url_findings P ds seen [] = []"
| "spec_url_findings P ds seen (raw # raws) =
     (case new_URL P raw of
        None \<Rightarrow> spec_url_findings P ds seen raws
      | Some v \<Rightarrow>
          if inScope ds (hostname v)
          then (if hostname v \<in> seen then [] else [SubdomainFinding (hostname v)])
               @ UrlFinding (href v) # spec_url_findings P ds (insert (hostname v) seen) raws
          else spec_url_findings P ds seen raws)"

section \<open>An example run\<close>

text \<open>
  The platform at the inputs of the examples: the URL objects that \<open>new URL\<close> builds
  for five strings (it throws on the others used), \<open>JSON.stringify\<close> on a headers
  object whose names and values need no escaping, and \<open>path.parse(p).ext\<close> on the
  paths of those URLs.
\<close>

fun json_members :: "(string \<times> string) list \<Rightarrow> string" where
  "json_members [] = []"
| "json_members [(k, v)] = dq # k @ [dq] @ '':'' @ dq # v @ [dq]"
| "json_members ((k, v) # kvs) = dq # k @ [dq] @ '':'' @ dq # v @ [dq] @ '','' @ json_members kvs"

definition example_platform :: platform where
  "example_platform =
     \<lparr>new_URL = map_of
        [(''https://app.example.com/page'',
            \<lparr>href = ''https://app.example.com/page'', hostname = ''app.example.com'', pathname = ''/page''\<rparr>),
         (''https://cdn.example.com/a.js'',
            \<lparr>href = ''https://cdn.example.com/a.js'', hostname = ''cdn.example.com'', pathname = ''/a.js''\<rparr>),
         (''https://app.example.com/logo.png'',
            \<lparr>href = ''https://app.example.com/logo.png'', hostname = ''app.example.com'', pathname = ''/logo.png''\<rparr>),
         (''https://static.example.com/x'',
            \<lparr>href = ''https://static.example.com/x'', hostname = ''static.example.com'', pathname = ''/x''\<rparr>),
         (''https://evil.org/'',
            \<lparr>href = ''https://evil.org/'', hostname = ''evil.org'', pathname = ''/''\<rparr>)],
      JSON_stringify = (\<lambda>hs. ''{'' @ json_members hs @ ''}''),
      path_ext = (\<lambda>p. if p = ''/logo.png'' then ''.png'' else if p = ''/a.js'' then ''.js'' else [])\<rparr>"

definition example_config :: config where
  "example_config = \<lparr>domains = [''example.com''], extensions = [''.js'']\<rparr>"

definition example_body :: string where
  "example_body = dq # ''https://cdn.example.com/a.js'' @ [dq] @ '' '' @ dq # ''/api/v1/users'' @ [dq]"

definition page_response :: response where
  "page_response =
     \<lparr>resp_url = ''https://app.example.com/page'', resp_headers = [], resp_text = Some example_body\<rparr>"

definition png_response :: response where
  "png_response =
     \<lparr>resp_url = ''https://app.example.com/logo.png'',
      resp_headers = [(''location'', ''https://static.example.com/x'')],
      resp_text = Some example_body\<rparr>"

definition evil_response :: response where
  "evil_response =
     \<lparr>resp_url = ''https://evil.org/'', resp_headers = [],
      resp_text = Some (dq # ''/a/b'' @ [dq])\<rparr>"

definition bad_response :: response where
  "bad_response =
     \<lparr>resp_url = ''//no scheme'', resp_headers = [(''location'', ''https://static.example.com/x'')],
      resp_text = Some example_body\<rparr>"

text \<open>A response for an image whose \<open>location\<close> header names a page of its own host.\<close>

definition own_host_png :: response where
  "own_host_png = png_response\<lparr>resp_headers := [(''location'', ''https://app.example.com/page'')]\<rparr>"

section \<open>Properties of the matcher\<close>

text \<open>
  What a successful run of a matcher says about the input, one constructor at a time.
\<close>

lemmas rmatch_Seq = rmatch.simps(3)
lemmas rmatch_Group = rmatch.simps(8)
declare rmatch.simps [simp del]

lemma lazy_star_SomeD:
  "lazy_star p s k = Some y \<Longrightarrow> \<exists>pre rest. s = pre @ rest \<and> (\<forall>c\<in>set pre. p c) \<and> k rest = Some y"
proof (induction s)
  case Nil
  then show ?case by simp
next
  case (Cons a as)
  show ?case
  proof (cases "k (a # as)")
    case (Some z)
    with Cons.prems have "k (a # as) = Some y" by simp
    then have "a # as = [] @ (a # as) \<and> (\<forall>c\<in>set []. p c) \<and> k (a # as) = Some y" by simp
    then show ?thesis by blast
  next
    case None
    with Cons.prems have pa: "p a" and rec: "lazy_star p as k = Some y"
      by (auto split: if_splits)
    from Cons.IH [OF rec] obtain pre rest where "as = pre @ rest" "\<forall>c\<in>set pre. p c" "k rest = Some y"
      by blast
    with pa have "a # as = (a # pre) @ rest \<and> (\<forall>c\<in>set (a # pre). p c) \<and> k rest = Some y" by simp
    then show ?thesis by blast
  qed
qed

lemma rmatch_CharsD:
  assumes "rmatch (Chars w) (s, caps) k = Some y"
  obtains rest where "s = w @ rest" and "k (rest, caps) = Some y"
proof -
  from assms have t: "take (length w) s = w" and k: "k (drop (length w) s, caps) = Some y"
    by (auto simp: rmatch.simps split: if_splits)
  have "s = w @ drop (length w) s"
    using t append_take_drop_id [of "length w" s] by simp
  with k that show thesis by blast
qed

lemma rmatch_ClassD:
  assumes "rmatch (Class neg items) (s, caps) k = Some y"
  obtains a rest where "s = a # rest" and "in_class neg items a" and "k (rest, caps) = Some y"
  using assms by (auto simp: rmatch.simps split: list.splits if_splits)

lemma rmatch_AltD:
  assumes "rmatch (Alt r1 r2) x k = Some y"
  shows "rmatch r1 x k = Some y \<or> rmatch r2 x k = Some y"
  using assms by (auto simp: rmatch.simps split: option.splits)

lemma rmatch_OptD:
  assumes "rmatch (Opt r) x k = Some y"
  shows "rmatch r x k = Some y \<or> k x = Some y"
  using assms by (auto simp: rmatch.simps split: option.splits)

lemma rmatch_StarLazyD:
  assumes "rmatch (StarLazy neg items) (s, caps) k = Some y"
  obtains pre rest where "s = pre @ rest" and "\<forall>c\<in>set pre. in_class neg items c"
    and "k (rest, caps) = Some y"
proof -
  from assms have "lazy_star (in_class neg items) s (\<lambda>rest. k (rest, caps)) = Some y" by (simp add: rmatch.simps)
  from lazy_star_SomeD [OF this] that show thesis by blast
qed

lemma rmatch_PlusLazyD:
  assumes "rmatch (PlusLazy neg items) (s, caps) k = Some y"
  obtains pre rest where "s = pre @ rest" and "pre \<noteq> []" and "\<forall>c\<in>set pre. in_class neg items c"
    and "k (rest, caps) = Some y"
proof -
  from assms obtain a as where s: "s = a # as" and a: "in_class neg items a"
    and l: "lazy_star (in_class neg items) as (\<lambda>rest. k (rest, caps)) = Some y"
    by (auto simp: rmatch.simps split: list.splits if_splits)
  from lazy_star_SomeD [OF l] obtain pre rest where
    "as = pre @ rest" "\<forall>c\<in>set pre. in_class neg items c" "k (rest, caps) = Some y"
    by blast
  with s a have "s = (a # pre) @ rest" "a # pre \<noteq> []" "\<forall>c\<in>set (a # pre). in_class neg items c"
    by simp_all
  with \<open>k (rest, caps) = Some y\<close> that show thesis by blast
qed

lemma rmatch_BackrefD:
  assumes "rmatch (Backref n) (s, caps) k = Some y" and "map_of caps n = Some w"
  obtains rest where "s = w @ rest" and "k (rest, caps) = Some y"
proof -
  from assms have t: "take (length w) s = w" and k: "k (drop (length w) s, caps) = Some y"
    by (auto simp: rmatch.simps split: if_splits)
  have "s = w @ drop (length w) s"
    using t append_take_drop_id [of "length w" s] by simp
  with k that show thesis by blast
qed

lemma rmatch_LookaheadD:
  assumes "rmatch (Lookahead r) (s, caps) k = Some y"
  obtains y' where "rmatch r (s, caps) Some = Some y'" and "k (s, snd y') = Some y"
  using assms by (auto simp: rmatch.simps split: option.splits)

lemma scheme_D:
  assumes "rmatch (Seq (Chars ''http'') (Seq (Opt (Chars ''s'')) (Seq (Chars ''://'') r))) (s, caps) k = Some y"
  obtains rest where "s = ''http://'' @ rest \<or> s = ''https://'' @ rest"
    and "rmatch r (rest, caps) k = Some y"
proof -
  from assms have "rmatch (Chars ''http'') (s, caps) (\<lambda>y. rmatch (Seq (Opt (Chars ''s'')) (Seq (Chars ''://'') r)) y k) = Some y"
    by (simp add: rmatch_Seq)
  then obtain s1 where s1: "s = ''http'' @ s1"
    and m1: "rmatch (Opt (Chars ''s'')) (s1, caps) (\<lambda>y. rmatch (Seq (Chars ''://'') r) y k) = Some y"
    by (rule rmatch_CharsD) (simp add: rmatch_Seq)
  from rmatch_OptD [OF m1]
  have "\<exists>s2. (s1 = ''s'' @ s2 \<or> s1 = s2) \<and> rmatch (Seq (Chars ''://'') r) (s2, caps) k = Some y"
  proof
    assume "rmatch (Chars ''s'') (s1, caps) (\<lambda>y. rmatch (Seq (Chars ''://'') r) y k) = Some y"
    then show ?thesis by (rule rmatch_CharsD) auto
  next
    assume "rmatch (Seq (Chars ''://'') r) (s1, caps) k = Some y"
    then show ?thesis by blast
  qed
  then obtain s2 where s2: "s1 = ''s'' @ s2 \<or> s1 = s2"
    and m2: "rmatch (Chars ''://'') (s2, caps) (\<lambda>y. rmatch r y k) = Some y"
    by (auto simp: rmatch_Seq)
  from m2 obtain s3 where s3: "s2 = ''://'' @ s3" and m3: "rmatch r (s3, caps) k = Some y"
    by (rule rmatch_CharsD)
  from s1 s2 s3 have "s = ''http://'' @ s3 \<or> s = ''https://'' @ s3" by auto
  with m3 that show thesis by blast
qed

lemma take_diff_append: "take (length (xs @ ys) - length ys) (xs @ ys) = xs"
  by simp

lemma in_class_neg: "in_class True items c = (\<not> in_class False items c)"
  by (simp add: in_class_def)

lemma regex_url_D:
  assumes "rmatch regex_url (s, caps) Some = Some (rest, caps')"
  obtains w where "s = w @ rest" and "caps' = (1, w) # caps" and "url_shape w" and "url_follow rest"
proof -
  define L where "L = Lookahead (Alt (Seq (Chars ''http'') (Seq (Opt (Chars ''s'')) (Chars ''://'')))
                      (Class False url_delim))"
  define K where "K = (\<lambda>y::mstate. rmatch L (fst y, (1, take (length s - length (fst y)) s) # snd y) Some)"
  from assms have "rmatch (Seq (Chars ''http'') (Seq (Opt (Chars ''s'')) (Seq (Chars ''://'')
            (PlusLazy True url_delim)))) (s, caps) K = Some (rest, caps')"
    by (simp add: regex_url_def K_def L_def rmatch_Seq rmatch_Group)
  then obtain s3 where s3: "s = ''http://'' @ s3 \<or> s = ''https://'' @ s3"
    and m3: "rmatch (PlusLazy True url_delim) (s3, caps) K = Some (rest, caps')"
    by (rule scheme_D)
  from m3 obtain b r4 where b: "s3 = b @ r4" "b \<noteq> []" "\<forall>c\<in>set b. in_class True url_delim c"
    and m4: "K (r4, caps) = Some (rest, caps')"
    by (rule rmatch_PlusLazyD)
  define w where "w = take (length s - length r4) s"
  from s3 b obtain pre where pre: "pre = ''http://'' \<or> pre = ''https://''" and spre: "s = (pre @ b) @ r4"
    by auto
  have "w = pre @ b"
    unfolding w_def spre by (rule take_diff_append)
  with pre spre have sw: "s = w @ r4" and wb: "w = ''http://'' @ b \<or> w = ''https://'' @ b"
    by auto
  from m4 have "rmatch L (r4, (1, w) # caps) Some = Some (rest, caps')"
    by (simp add: K_def w_def)
  then obtain y' where la: "rmatch (Alt (Seq (Chars ''http'') (Seq (Opt (Chars ''s'')) (Chars ''://'')))
                      (Class False url_delim)) (r4, (1, w) # caps) Some = Some y'"
    and r: "(r4, snd y') = (rest, caps')"
    unfolding L_def by (rule rmatch_LookaheadD) simp
  from rmatch_AltD [OF la] have "snd y' = (1, w) # caps \<and> url_follow r4"
  proof
    assume "rmatch (Seq (Chars ''http'') (Seq (Opt (Chars ''s'')) (Chars ''://''))) (r4, (1, w) # caps) Some = Some y'"
    then have "rmatch (Seq (Chars ''http'') (Seq (Opt (Chars ''s'')) (Seq (Chars ''://'') (Chars [])))) (r4, (1, w) # caps) Some = Some y'"
      by (simp add: rmatch_Seq rmatch.simps(1))
    then obtain t where t: "r4 = ''http://'' @ t \<or> r4 = ''https://'' @ t"
      and y: "rmatch (Chars []) (t, (1, w) # caps) Some = Some y'"
      by (rule scheme_D)
    from y have "snd y' = (1, w) # caps"
      by (auto simp: rmatch.simps(1))
    moreover from t have "prefix ''http://'' r4 \<or> prefix ''https://'' r4"
      by (metis prefixI)
    ultimately show ?thesis unfolding url_follow_def by blast
  next
    assume "rmatch (Class False url_delim) (r4, (1, w) # caps) Some = Some y'"
    then obtain a as where "r4 = a # as" "in_class False url_delim a" "Some (as, (1, w) # caps) = Some y'"
      by (rule rmatch_ClassD)
    then show ?thesis unfolding url_follow_def by auto
  qed
  with r have "caps' = (1, w) # caps" "url_follow rest" "r4 = rest" by auto
  moreover from wb b have "url_shape w" by (auto simp: url_shape_def in_class_neg)
  ultimately show thesis using that sw by blast
qed

lemma regex_path_D:
  assumes "rmatch regex_path (s, caps) Some = Some (rest, caps')"
  obtains q w where "s = q # w @ q # rest" and "q = dq \<or> q = sq"
    and "caps' = (2, w) # (1, [q]) # caps" and "path_shape w"
proof -
  define B where "B = Seq (Chars ''/'') (Seq (Class False path_first) (StarLazy False path_rest))"
  define K1 where "K1 = (\<lambda>y::mstate. rmatch (Seq (Group 2 B) (Backref 1))
     (fst y, (1, take (length s - length (fst y)) s) # snd y) Some)"
  from assms have "rmatch (Alt (Chars [dq]) (Chars [sq])) (s, caps) K1 = Some (rest, caps')"
    by (simp add: regex_path_def K1_def B_def rmatch_Seq rmatch_Group)
  from rmatch_AltD [OF this]
  have "\<exists>q s1. (q = dq \<or> q = sq) \<and> s = [q] @ s1 \<and> K1 (s1, caps) = Some (rest, caps')"
  proof
    assume "rmatch (Chars [dq]) (s, caps) K1 = Some (rest, caps')"
    then show ?thesis by (rule rmatch_CharsD) blast
  next
    assume "rmatch (Chars [sq]) (s, caps) K1 = Some (rest, caps')"
    then show ?thesis by (rule rmatch_CharsD) blast
  qed
  then obtain q s1 where q: "q = dq \<or> q = sq" and s1: "s = [q] @ s1"
    and k1: "K1 (s1, caps) = Some (rest, caps')"
    by blast
  have tq: "take (length s - length s1) s = [q]"
    unfolding s1 by (rule take_diff_append)
  define c1 where "c1 = (1, [q]) # caps"
  define K2 where "K2 = (\<lambda>y::mstate. rmatch (Backref 1)
     (fst y, (2, take (length s1 - length (fst y)) s1) # snd y) Some)"
  from k1 tq have "rmatch (Chars ''/'') (s1, c1)
     (\<lambda>y. rmatch (Seq (Class False path_first) (StarLazy False path_rest)) y K2) = Some (rest, caps')"
    by (simp add: K1_def K2_def B_def c1_def rmatch_Seq rmatch_Group)
  then obtain s2 where s2: "s1 = ''/'' @ s2"
    and m2: "rmatch (Class False path_first) (s2, c1) (\<lambda>y. rmatch (StarLazy False path_rest) y K2) = Some (rest, caps')"
    by (rule rmatch_CharsD) (simp add: rmatch_Seq)
  from m2 obtain c s3 where s3: "s2 = c # s3" and c: "in_class False path_first c"
    and m3: "rmatch (StarLazy False path_rest) (s3, c1) K2 = Some (rest, caps')"
    by (rule rmatch_ClassD)
  from m3 obtain t s4 where s4: "s3 = t @ s4" and t: "\<forall>x\<in>set t. in_class False path_rest x"
    and k2: "K2 (s4, c1) = Some (rest, caps')"
    by (rule rmatch_StarLazyD)
  define w where "w = CHR ''/'' # c # t"
  from s2 s3 s4 have s1w: "s1 = w @ s4" by (simp add: w_def)
  have tw: "take (length s1 - length s4) s1 = w"
    unfolding s1w by (rule take_diff_append)
  from k2 tw have m5: "rmatch (Backref 1) (s4, (2, w) # c1) Some = Some (rest, caps')"
    by (simp add: K2_def)
  have "map_of ((2, w) # c1) 1 = Some [q]" by (simp add: c1_def)
  with m5 obtain r5 where r5: "s4 = [q] @ r5" and e: "Some (r5, (2, w) # c1) = Some (rest, caps')"
    by (rule rmatch_BackrefD)
  from e have "r5 = rest" "caps' = (2, w) # (1, [q]) # caps" by (simp_all add: c1_def)
  moreover from s1 s1w r5 \<open>r5 = rest\<close> have "s = q # w @ q # rest" by simp
  moreover from c t have "path_shape w" unfolding path_shape_def w_def by blast
  ultimately show thesis using that q by blast
qed

lemma exec_from_Nil_D:
  assumes "exec_from r i [] = Some (m, rest)"
  obtains caps where "rmatch r ([], []) Some = Some (rest, caps)"
    and "m = \<lparr>index = i, groups = (0, []) # caps\<rparr>"
proof (cases "rmatch r ([], []) Some")
  case None
  with assms show ?thesis by simp
next
  case (Some y)
  obtain rest' caps where y: "y = (rest', caps)" by (cases y)
  from assms Some y have "rest' = rest" and "m = \<lparr>index = i, groups = (0, []) # caps\<rparr>"
    by simp_all
  with Some y that show ?thesis by simp
qed

lemma exec_from_SomeD:
  "exec_from r i s = Some (m, rest) \<Longrightarrow>
   \<exists>skip t caps. s = skip @ t \<and> index m = i + length skip \<and>
     rmatch r (t, []) Some = Some (rest, caps) \<and>
     groups m = (0, take (length t - length rest) t) # caps"
proof (induction s arbitrary: i)
  case Nil
  then obtain caps where c: "rmatch r ([], []) Some = Some (rest, caps)"
    and m: "m = \<lparr>index = i, groups = (0, []) # caps\<rparr>"
    by (rule exec_from_Nil_D)
  show ?case
    apply (rule exI [of _ "[]"])
    apply (rule exI [of _ "[]"])
    apply (rule exI [of _ caps])
    using c m apply simp
    done
next
  case (Cons a as)
  show ?case
  proof (cases "rmatch r (a # as, []) Some")
    case None
    with Cons.prems have "exec_from r (Suc i) as = Some (m, rest)" by simp
    from Cons.IH [OF this] obtain skip t caps where
      *: "as = skip @ t" "index m = Suc i + length skip"
      "rmatch r (t, []) Some = Some (rest, caps)"
      "groups m = (0, take (length t - length rest) t) # caps"
      by blast
    show ?thesis
      apply (rule exI [of _ "a # skip"])
      apply (rule exI [of _ t])
      apply (rule exI [of _ caps])
      using * apply simp
      done
  next
    case (Some y)
    obtain rest' caps where y: "y = (rest', caps)" by (cases y)
    with Some Cons.prems have *: "rest' = rest"
      "m = \<lparr>index = i, groups = (0, take (length (a # as) - length rest) (a # as)) # caps\<rparr>"
      by auto
    show ?thesis
      apply (rule exI [of _ "[]"])
      apply (rule exI [of _ "a # as"])
      apply (rule exI [of _ caps])
      using * Some y apply simp
      done
  qed
qed

section \<open>Properties of the scanning loop\<close>

declare matchAll_from.simps [simp del] matches_from.simps [simp del]

lemma matchAll_from_fold:
  "matchAll_from r i s cb st = map_option (\<lambda>ms. fold cb ms st) (matches_from r i s)"
proof (induction r i s cb st rule: matchAll_from.induct)
  case (1 r i s cb st)
  show ?case
  proof (cases "exec_from r i s")
    case None
    then show ?thesis
      by (simp add: matchAll_from.simps [of r i s] matches_from.simps [of r i s])
  next
    case (Some y)
    obtain m rest where y: "y = (m, rest)" by (cases y)
    show ?thesis
    proof (cases "length rest < length s")
      case True
      from "1.IH" [OF Some y [symmetric] True]
      show ?thesis
        using Some y True
        by (simp add: matchAll_from.simps [of r i s] matches_from.simps [of r i s]
            option.map_comp comp_def)
    next
      case False
      with Some y show ?thesis
        by (simp add: matchAll_from.simps [of r i s] matches_from.simps [of r i s])
    qed
  qed
qed

lemma matchAll_fold:
  "matchAll r s cb st = map_option (\<lambda>ms. fold cb ms st) (all_matches r s)"
  by (simp add: matchAll_def all_matches_def matchAll_from_fold)

lemma exec_from_consuming:
  assumes cons: "consuming r"
    and e: "exec_from r i s = Some (m, rest)"
  obtains skip w caps where "s = skip @ w @ rest" and "w \<noteq> []" and "index m = i + length skip"
    and "rmatch r (w @ rest, []) Some = Some (rest, caps)"
    and "groups m = (0, w) # caps"
proof -
  from exec_from_SomeD [OF e] obtain skip t caps where
    s: "s = skip @ t" and i: "index m = i + length skip"
    and r: "rmatch r (t, []) Some = Some (rest, caps)"
    and g: "groups m = (0, take (length t - length rest) t) # caps"
    by blast
  from cons r obtain w where w: "w \<noteq> []" "t = w @ rest"
    unfolding consuming_def by blast
  have "take (length t - length rest) t = w"
    unfolding w(2) by (rule take_diff_append)
  with g have "groups m = (0, w) # caps" by simp
  with s i r w that show thesis by blast
qed

lemma matches_from_total:
  assumes cons: "consuming r"
  shows "\<exists>ms. matches_from r i s = Some ms"
  using cons
proof (induction r i s rule: matches_from.induct)
  case (1 r i s)
  show ?case
  proof (cases "exec_from r i s")
    case None
    then show ?thesis by (simp add: matches_from.simps [of r i s])
  next
    case (Some y)
    obtain m rest where y: "y = (m, rest)" by (cases y)
    from Some y have e: "exec_from r i s = Some (m, rest)" by simp
    from "1.prems" e obtain skip w caps where "s = skip @ w @ rest" "w \<noteq> []"
      by (rule exec_from_consuming)
    then have lt: "length rest < length s" by simp
    from "1.IH" [OF Some y [symmetric] lt "1.prems"]
    obtain ms where "matches_from r (i + (length s - length rest)) rest = Some ms"
      by blast
    with e lt show ?thesis by (simp add: matches_from.simps [of r i s])
  qed
qed

lemma matches_from_D:
  assumes cons: "consuming r"
    and "matches_from r i s = Some ms" and "m \<in> set ms"
  shows "\<exists>skip w rest caps. s = skip @ w @ rest \<and> w \<noteq> [] \<and> index m = i + length skip \<and>
     rmatch r (w @ rest, []) Some = Some (rest, caps) \<and> groups m = (0, w) # caps"
  using assms
proof (induction r i s arbitrary: ms rule: matches_from.induct)
  case (1 r i s)
  note cons = "1.prems"(1)
  show ?case
  proof (cases "exec_from r i s")
    case None
    with "1.prems"(2,3) show ?thesis by (simp add: matches_from.simps [of r i s])
  next
    case (Some y)
    obtain m0 rest0 where y: "y = (m0, rest0)" by (cases y)
    from Some y have e: "exec_from r i s = Some (m0, rest0)" by simp
    from cons e obtain skip0 w0 caps0 where s: "s = skip0 @ w0 @ rest0" and w0: "w0 \<noteq> []"
      and i0: "index m0 = i + length skip0"
      and r0: "rmatch r (w0 @ rest0, []) Some = Some (rest0, caps0)"
      and g0: "groups m0 = (0, w0) # caps0"
      by (rule exec_from_consuming)
    from s w0 have lt: "length rest0 < length s" by simp
    from "1.prems"(2) e lt obtain ms' where ms': "matches_from r (i + (length s - length rest0)) rest0 = Some ms'"
      and ms: "ms = m0 # ms'"
      by (auto simp: matches_from.simps [of r i s])
    from "1.prems"(3) ms have "m = m0 \<or> m \<in> set ms'" by auto
    then show ?thesis
    proof
      assume "m = m0"
      with s w0 i0 r0 g0 show ?thesis by blast
    next
      assume "m \<in> set ms'"
      from "1.IH" [OF Some y [symmetric] lt cons ms' this]
      obtain skip w rest caps where *: "rest0 = skip @ w @ rest" "w \<noteq> []"
        "index m = i + (length s - length rest0) + length skip"
        "rmatch r (w @ rest, []) Some = Some (rest, caps)" "groups m = (0, w) # caps"
        by blast
      from s * have "s = (skip0 @ w0 @ skip) @ w @ rest"
        and "index m = i + length (skip0 @ w0 @ skip)"
        by simp_all
      with * show ?thesis by blast
    qed
  qed
qed

section \<open>Properties of the two patterns\<close>

lemma url_shape_nonempty: "url_shape w \<Longrightarrow> w \<noteq> []"
  by (auto simp: url_shape_def)

lemma consuming_regex_url: "consuming regex_url"
  unfolding consuming_def
proof (intro allI impI)
  fix t rest caps
  assume "rmatch regex_url (t, []) Some = Some (rest, caps)"
  then obtain w where "t = w @ rest" "url_shape w"
    by (rule regex_url_D)
  then show "\<exists>w. w \<noteq> [] \<and> t = w @ rest"
    using url_shape_nonempty by blast
qed

lemma consuming_regex_path: "consuming regex_path"
  unfolding consuming_def
proof (intro allI impI)
  fix t rest caps
  assume "rmatch regex_path (t, []) Some = Some (rest, caps)"
  then obtain q w where "t = q # w @ q # rest"
    by (rule regex_path_D)
  then have "q # w @ [q] \<noteq> [] \<and> t = (q # w @ [q]) @ rest" by simp
  then show "\<exists>w. w \<noteq> [] \<and> t = w @ rest" by blast
qed

lemma all_matches_url_total: "\<exists>ms. all_matches regex_url s = Some ms"
  unfolding all_matches_def by (rule matches_from_total [OF consuming_regex_url])

lemma all_matches_path_total: "\<exists>ms. all_matches regex_path s = Some ms"
  unfolding all_matches_def by (rule matches_from_total [OF consuming_regex_path])

lemma url_match_D:
  assumes "all_matches regex_url s = Some ms" and "m \<in> set ms"
  obtains rest where "drop (index m) s = grp m 1 @ rest" and "url_shape (grp m 1)"
    and "url_follow rest"
proof -
  from assms have "matches_from regex_url 0 s = Some ms" by (simp add: all_matches_def)
  from matches_from_D [OF consuming_regex_url this assms(2)]
  obtain skip w rest caps where s: "s = skip @ w @ rest" and i: "index m = length skip"
    and r: "rmatch regex_url (w @ rest, []) Some = Some (rest, caps)"
    and g: "groups m = (0, w) # caps"
    by auto
  from r obtain w' where w': "w @ rest = w' @ rest" "caps = [(1, w')]" "url_shape w'" "url_follow rest"
    by (rule regex_url_D)
  from w'(1) have ww: "w' = w" by simp
  from g w'(2) ww have gw: "grp m 1 = w" by (simp add: grp_def)
  from s i have "drop (index m) s = w @ rest" by simp
  with gw have d: "drop (index m) s = grp m 1 @ rest" by simp
  from w'(3) ww gw have u: "url_shape (grp m 1)" by simp
  from d u w'(4) show thesis by (rule that)
qed

lemma path_match_D:
  assumes "all_matches regex_path s = Some ms" and "m \<in> set ms"
  obtains q rest where "q = dq \<or> q = sq" and "drop (index m) s = q # grp m 2 @ q # rest"
    and "path_shape (grp m 2)"
proof -
  from assms have "matches_from regex_path 0 s = Some ms" by (simp add: all_matches_def)
  from matches_from_D [OF consuming_regex_path this assms(2)]
  obtain skip w rest caps where s: "s = skip @ w @ rest" and i: "index m = length skip"
    and r: "rmatch regex_path (w @ rest, []) Some = Some (rest, caps)"
    and g: "groups m = (0, w) # caps"
    by auto
  from r obtain q p where p: "w @ rest = q # p @ q # rest" "q = dq \<or> q = sq"
    "caps = [(2, p), (1, [q])]" "path_shape p"
    by (rule regex_path_D)
  from g p(3) have gp: "grp m 2 = p" by (simp add: grp_def)
  from s i p(1) have "drop (index m) s = q # p @ q # rest" by simp
  with gp have d: "drop (index m) s = q # grp m 2 @ q # rest" by simp
  from p(4) gp have u: "path_shape (grp m 2)" by simp
  from p(2) d u show thesis by (rule that)
qed

lemma not_first_slash: "\<not> in_class False path_first CHR ''/''"
  by (simp add: in_class_def path_first_def is_word_def is_digit_def)

lemma not_rest_quote: "in_class False path_rest c \<Longrightarrow> c \<noteq> dq \<and> c \<noteq> sq"
  by (auto simp: in_class_def path_rest_def is_word_def is_digit_def dq_def sq_def)

lemma not_first_quote: "in_class False path_first c \<Longrightarrow> c \<noteq> dq \<and> c \<noteq> sq"
  by (auto simp: in_class_def path_first_def is_word_def is_digit_def dq_def sq_def)

section \<open>Properties of the scope filter\<close>

lemma startsWith_prefix: "startsWith s p = prefix p s"
proof
  assume "startsWith s p"
  then have "s = p @ drop (length p) s"
    using append_take_drop_id [of "length p" s] by (simp add: startsWith_def)
  then show "prefix p s" by (metis prefixI)
next
  assume "prefix p s"
  then show "startsWith s p" by (auto simp: startsWith_def prefix_def)
qed

lemma endsWith_suffix: "endsWith s p = suffix p s"
proof
  assume "endsWith s p"
  then have "s = take (length s - length p) s @ p"
    using append_take_drop_id [of "length s - length p" s] by (simp add: endsWith_def)
  then show "suffix p s" by (metis suffixI)
next
  assume "suffix p s"
  then show "endsWith s p" by (auto simp: endsWith_def suffix_def)
qed

lemma inScope_char:
  "inScope D h \<longleftrightarrow> \<not> prefix ''*.'' h \<and> (\<exists>d\<in>set D. h = d \<or> suffix (''.'' @ d) h)"
  by (simp add: inScope_def startsWith_prefix endsWith_suffix list_ex_iff)

section \<open>The lazy quantifier stops at the first place where the lookahead holds\<close>










section \<open>The scope filter and the two extractors\<close>

text \<open>
  C2. For every hostname \<open>h\<close> and every list \<open>D\<close> of root domains (empty or not),
  \<open>inScope D h\<close> holds exactly when \<open>h\<close> does not start with \<open>*.\<close> and some \<open>d\<close> in \<open>D\<close>
  is \<open>h\<close> itself or is such that \<open>h\<close> ends with \<open>.d\<close>. The comparison is on characters,
  so it is case-sensitive, and \<open>evilexample.com\<close> is not in the scope of \<open>example.com\<close>.
\<close>

theorem inScope_iff:
  "(inScope D h \<longleftrightarrow> \<not> prefix ''*.'' h \<and> (\<exists>d\<in>set D. h = d \<or> suffix (''.'' @ d) h))
   \<and> \<not> inScope [''example.com''] ''evilexample.com''
   \<and> \<not> inScope [''example.com''] ''Example.com''
   \<and> \<not> inScope [''Example.com''] ''example.com''"
proof -
  have "\<not> inScope [''example.com''] ''evilexample.com''" by code_simp
  moreover have "\<not> inScope [''example.com''] ''Example.com''" by code_simp
  moreover have "\<not> inScope [''Example.com''] ''example.com''" by code_simp
  ultimately show ?thesis using inScope_char [of D h] by blast
qed

text \<open>The equivalence of C2 at a subdomain that is in scope.\<close>

theorem inScope_iff_witness:
  "inScope [''example.com''] ''app.example.com''
   \<and> \<not> prefix ''*.'' ''app.example.com''
   \<and> (\<exists>d\<in>set [''example.com'']. ''app.example.com'' = d \<or> suffix (''.'' @ d) ''app.example.com'')"
proof -
  have "inScope [''example.com''] ''app.example.com''" by code_simp
  with inScope_iff [of "[''example.com'']" "''app.example.com''"] show ?thesis by blast
qed

text \<open>
  C9. Every match of \<open>regex.url\<close> is followed in the input, right where it ends, by a
  delimiter character or by another \<open>http://\<close> or \<open>https://\<close>; so it ends before the end
  of the input. The scan always returns, and a URL that runs to the end of the input
  is not extracted.
\<close>

theorem url_match_needs_terminator:
  "(all_matches regex_url s = Some ms \<and> m \<in> set ms \<longrightarrow>
      (\<exists>rest. drop (index m) s = grp m 1 @ rest \<and> rest \<noteq> [] \<and>
         (in_class False url_delim (hd rest) \<or> prefix ''http://'' rest \<or> prefix ''https://'' rest))
      \<and> index m + length (grp m 1) < length s)
   \<and> (\<exists>ms. all_matches regex_url s = Some ms)
   \<and> extractUrls ''http://b.com/y'' = Some []"
proof (intro conjI impI)
  assume a: "all_matches regex_url s = Some ms \<and> m \<in> set ms"
  then obtain rest where d: "drop (index m) s = grp m 1 @ rest" and f: "url_follow rest"
    by (auto elim: url_match_D)
  from f have ne: "rest \<noteq> []"
    and h: "in_class False url_delim (hd rest) \<or> prefix ''http://'' rest \<or> prefix ''https://'' rest"
    by (auto simp: url_follow_def)
  from d ne h
  show "\<exists>rest. drop (index m) s = grp m 1 @ rest \<and> rest \<noteq> [] \<and>
         (in_class False url_delim (hd rest) \<or> prefix ''http://'' rest \<or> prefix ''https://'' rest)"
    by blast
  from d have "length s - index m = length (grp m 1) + length rest"
    by (metis length_drop length_append)
  with ne show "index m + length (grp m 1) < length s"
    by (cases rest) auto
next
  show "\<exists>ms. all_matches regex_url s = Some ms" by (rule all_matches_url_total)
next
  show "extractUrls ''http://b.com/y'' = Some []" by code_simp
qed


text \<open>C9 at an input with one URL followed by a space.\<close>

theorem url_match_needs_terminator_witness:
  "all_matches regex_url ''see http://a.com/x now'' =
     Some [\<lparr>index = 4, groups = [(0, ''http://a.com/x''), (1, ''http://a.com/x'')]\<rparr>]
   \<and> (\<exists>rest. drop 4 ''see http://a.com/x now'' = ''http://a.com/x'' @ rest \<and> rest \<noteq> [])
   \<and> (4::nat) + length ''http://a.com/x'' < length ''see http://a.com/x now''"
proof -
  define m where "m = \<lparr>index = 4, groups = [(0, ''http://a.com/x''), (1, ''http://a.com/x'')]\<rparr>"
  have a: "all_matches regex_url ''see http://a.com/x now'' = Some [m]"
    unfolding m_def by code_simp
  have g: "grp m 1 = ''http://a.com/x''" "index m = 4"
    by (simp_all add: m_def grp_def)
  from a have "all_matches regex_url ''see http://a.com/x now'' = Some [m] \<and> m \<in> set [m]"
    by simp
  with url_match_needs_terminator [of "''see http://a.com/x now''" "[m]" m]
  have "(\<exists>rest. drop (index m) ''see http://a.com/x now'' = grp m 1 @ rest \<and> rest \<noteq> [] \<and>
         (in_class False url_delim (hd rest) \<or> prefix ''http://'' rest \<or> prefix ''https://'' rest))
      \<and> index m + length (grp m 1) < length ''see http://a.com/x now''"
    by blast
  with a g show ?thesis unfolding m_def by auto
qed



text \<open>
  C6. Every match of \<open>regex.path\<close> stands in the input between two occurrences of the
  same quote character, which is a double or a single quote; the scan always returns.
  The input \<open>"/a/b'\<close> yields no match and the input \<open>"/a/b"\<close> yields the one match
  \<open>/a/b\<close>.
\<close>

theorem path_quotes_match:
  "(all_matches regex_path s = Some ms \<and> m \<in> set ms \<longrightarrow>
      (\<exists>q rest. (q = dq \<or> q = sq) \<and> drop (index m) s = q # grp m 2 @ q # rest))
   \<and> (\<exists>ms. all_matches regex_path s = Some ms)
   \<and> extractPaths (dq # ''/a/b'' @ [sq]) = Some []
   \<and> extractPaths (dq # ''/a/b'' @ [dq]) = Some [''/a/b'']"
proof (intro conjI impI)
  assume "all_matches regex_path s = Some ms \<and> m \<in> set ms"
  then show "\<exists>q rest. (q = dq \<or> q = sq) \<and> drop (index m) s = q # grp m 2 @ q # rest"
    by (auto elim: path_match_D)
next
  show "\<exists>ms. all_matches regex_path s = Some ms" by (rule all_matches_path_total)
next
  show "extractPaths (dq # ''/a/b'' @ [sq]) = Some []" by code_simp
next
  show "extractPaths (dq # ''/a/b'' @ [dq]) = Some [''/a/b'']" by code_simp
qed

text \<open>C6 at an input with one path between single quotes.\<close>

theorem path_quotes_match_witness:
  "all_matches regex_path (''x='' @ sq # ''/a/b'' @ [sq] @ '';'') =
     Some [\<lparr>index = 2, groups = [(0, sq # ''/a/b'' @ [sq]), (2, ''/a/b''), (1, [sq])]\<rparr>]
   \<and> (\<exists>q rest. (q = dq \<or> q = sq) \<and>
         drop 2 (''x='' @ sq # ''/a/b'' @ [sq] @ '';'') = q # ''/a/b'' @ q # rest)"
proof -
  define m where "m = \<lparr>index = 2, groups = [(0, sq # ''/a/b'' @ [sq]), (2, ''/a/b''), (1, [sq])]\<rparr>"
  define s where "s = ''x='' @ sq # ''/a/b'' @ [sq] @ '';''"
  have a: "all_matches regex_path s = Some [m]"
    unfolding m_def s_def by code_simp
  have g: "grp m 2 = ''/a/b''" "index m = 2"
    by (simp_all add: m_def grp_def)
  from a have "all_matches regex_path s = Some [m] \<and> m \<in> set [m]" by simp
  with path_quotes_match [of s "[m]" m]
  have "\<exists>q rest. (q = dq \<or> q = sq) \<and> drop (index m) s = q # grp m 2 @ q # rest"
    by blast
  with a g show ?thesis unfolding m_def s_def by simp
qed

text \<open>
  C10. Every extracted path begins with a slash followed by a character of the first
  class of the pattern, which is not a slash, and contains no quote character. The
  literal \<open>"//host/x"\<close> yields no match.
\<close>

theorem path_match_shape:
  "(extractPaths s = Some ps \<and> p \<in> set ps \<longrightarrow>
      (\<exists>c t. p = CHR ''/'' # c # t \<and> c \<noteq> CHR ''/'' \<and> in_class False path_first c)
      \<and> dq \<notin> set p \<and> sq \<notin> set p)
   \<and> extractPaths (dq # ''//host/x'' @ [dq]) = Some []"
proof (intro conjI impI)
  assume a: "extractPaths s = Some ps \<and> p \<in> set ps"
  then obtain ms where ms: "all_matches regex_path s = Some ms" and ps: "ps = map (\<lambda>m. grp m 2) ms"
    by (auto simp: extractPaths_def)
  with a obtain m where m: "m \<in> set ms" and p: "p = grp m 2" by auto
  from ms m have "path_shape p"
    unfolding p by (rule path_match_D)
  then obtain c t where ct: "p = CHR ''/'' # c # t" "in_class False path_first c"
    "\<forall>x\<in>set t. in_class False path_rest x"
    unfolding path_shape_def by blast
  from ct(2) have c: "c \<noteq> CHR ''/''" "c \<noteq> dq" "c \<noteq> sq"
    using not_first_slash not_first_quote by auto
  from ct c show "\<exists>c t. p = CHR ''/'' # c # t \<and> c \<noteq> CHR ''/'' \<and> in_class False path_first c"
    by blast
  have sl: "CHR ''/'' \<noteq> dq" "CHR ''/'' \<noteq> sq" by (simp_all add: dq_def sq_def)
  from ct(3) have t: "dq \<notin> set t" "sq \<notin> set t"
    using not_rest_quote by blast+
  from ct(1) c sl t show "dq \<notin> set p" by auto
  from ct(1) c sl t show "sq \<notin> set p" by auto
next
  show "extractPaths (dq # ''//host/x'' @ [dq]) = Some []" by code_simp
qed

text \<open>C10 at the input \<open>"/a/b"\<close>.\<close>

theorem path_match_shape_witness:
  "extractPaths (dq # ''/a/b'' @ [dq]) = Some [''/a/b'']
   \<and> (\<exists>c t. ''/a/b'' = CHR ''/'' # c # t \<and> c \<noteq> CHR ''/'' \<and> in_class False path_first c)
   \<and> dq \<notin> set ''/a/b'' \<and> sq \<notin> set ''/a/b''"
proof -
  have a: "extractPaths (dq # ''/a/b'' @ [dq]) = Some [''/a/b'']" by code_simp
  then have "extractPaths (dq # ''/a/b'' @ [dq]) = Some [''/a/b''] \<and> ''/a/b'' \<in> set [''/a/b'']"
    by simp
  with path_match_shape [of "dq # ''/a/b'' @ [dq]" "[''/a/b'']" "''/a/b''"] a
  show ?thesis by blast
qed

section \<open>Properties of the handlers\<close>

lemma written_handleURL: "written (handleURL ds u st) = written st @ url_writes ds u st"
  by (simp add: handleURL_def url_writes_def stream_write_def SubdomainFinding_def UrlFinding_def)

lemma uniqueDomains_handleURL:
  "uniqueDomains (handleURL ds u st) =
     (if inScope ds (hostname u) then insert (hostname u) (uniqueDomains st) else uniqueDomains st)"
  by (auto simp: handleURL_def stream_write_def)

lemma written_handlePath: "written (handlePath src p st) = written st @ [PathFinding src p]"
  by (simp add: handlePath_def stream_write_def PathFinding_def)

lemma uniqueDomains_handlePath: "uniqueDomains (handlePath src p st) = uniqueDomains st"
  by (simp add: handlePath_def stream_write_def)

lemma SubdomainFinding_inj: "SubdomainFinding h = SubdomainFinding h' \<longleftrightarrow> h = h'"
  by (simp add: SubdomainFinding_def)

lemma Finding_distinct:
  "SubdomainFinding h \<noteq> UrlFinding x" "SubdomainFinding h \<noteq> PathFinding y z"
  "UrlFinding x \<noteq> PathFinding y z" "UrlFinding x \<noteq> SubdomainFinding h"
  "PathFinding y z \<noteq> SubdomainFinding h" "PathFinding y z \<noteq> UrlFinding x"
  by (simp_all add: SubdomainFinding_def UrlFinding_def PathFinding_def)

lemma dedup_inv_initial: "dedup_inv initial"
  by (simp add: dedup_inv_def initial_def)

lemma count_list_0: "x \<notin> set xs \<Longrightarrow> count_list xs x = 0"
  by (induction xs) auto

lemma dedup_inv_handleURL:
  assumes "dedup_inv st"
  shows "dedup_inv (handleURL ds u st)"
  unfolding dedup_inv_def
proof (intro allI conjI)
  fix h
  from assms have m: "h \<in> uniqueDomains st \<longleftrightarrow> SubdomainFinding h \<in> set (written st)"
    and c: "count_list (written st) (SubdomainFinding h) \<le> 1"
    by (simp_all add: dedup_inv_def)
  show "h \<in> uniqueDomains (handleURL ds u st) \<longleftrightarrow> SubdomainFinding h \<in> set (written (handleURL ds u st))"
    using m
    by (auto simp: written_handleURL uniqueDomains_handleURL url_writes_def
        SubdomainFinding_inj Finding_distinct dedup_inv_def)
  show "count_list (written (handleURL ds u st)) (SubdomainFinding h) \<le> 1"
  proof (cases "inScope ds (hostname u) \<and> hostname u \<notin> uniqueDomains st \<and> h = hostname u")
    case True
    with assms have "SubdomainFinding h \<notin> set (written st)" by (simp add: dedup_inv_def)
    then have "count_list (written st) (SubdomainFinding h) = 0" by (rule count_list_0)
    with True show ?thesis
      by (simp add: written_handleURL url_writes_def Finding_distinct)
  next
    case False
    with c show ?thesis
      by (auto simp: written_handleURL url_writes_def Finding_distinct SubdomainFinding_inj)
  qed
qed

lemma dedup_inv_handlePath:
  assumes "dedup_inv st"
  shows "dedup_inv (handlePath src p st)"
  using assms
  by (simp add: dedup_inv_def written_handlePath uniqueDomains_handlePath Finding_distinct)

lemma dedup_inv_on_url_match: "dedup_inv st \<Longrightarrow> dedup_inv (on_url_match P ds m st)"
  by (simp add: on_url_match_def dedup_inv_handleURL split: option.splits)

lemma dedup_inv_on_path_match: "dedup_inv st \<Longrightarrow> dedup_inv (on_path_match u m st)"
  by (simp add: on_path_match_def dedup_inv_handlePath)

lemma fold_preserves:
  assumes "\<And>m st. I st \<Longrightarrow> I (cb m st)" and "I st"
  shows "I (fold cb ms st)"
  using assms(2) by (induction ms arbitrary: st) (simp_all add: assms(1))

lemma matchAll_url_Some:
  obtains ms where "all_matches regex_url s = Some ms"
    and "\<And>cb st. matchAll regex_url s cb (st::'s) = Some (fold cb ms st)"
proof -
  from all_matches_url_total obtain ms where ms: "all_matches regex_url s = Some ms" by blast
  then have "\<And>cb (st::'s). matchAll regex_url s cb st = Some (fold cb ms st)"
    by (simp add: matchAll_fold)
  with ms that show thesis by blast
qed

lemma matchAll_path_Some:
  obtains ms where "all_matches regex_path s = Some ms"
    and "\<And>cb st. matchAll regex_path s cb (st::'s) = Some (fold cb ms st)"
proof -
  from all_matches_path_total obtain ms where ms: "all_matches regex_path s = Some ms" by blast
  then have "\<And>cb (st::'s). matchAll regex_path s cb st = Some (fold cb ms st)"
    by (simp add: matchAll_fold)
  with ms that show thesis by blast
qed


lemma set_url_writes:
  "new_URL P raw = Some v \<Longrightarrow> w \<in> set (url_writes ds v st) \<Longrightarrow>
   inScope ds (hostname v) \<and> (w = SubdomainFinding (hostname v) \<or> w = UrlFinding (href v))"
  by (auto simp: url_writes_def split: if_splits)

lemma fold_url_written:
  "\<exists>B. written (fold (on_url_match P ds) ms st) = written st @ B \<and>
     (\<forall>w\<in>set B. \<exists>m\<in>set ms. \<exists>v. new_URL P (grp m 1) = Some v \<and> inScope ds (hostname v) \<and>
        (w = SubdomainFinding (hostname v) \<or> w = UrlFinding (href v)))"
proof (induction ms arbitrary: st)
  case Nil
  show ?case by simp
next
  case (Cons m ms)
  define st1 where "st1 = on_url_match P ds m st"
  from Cons.IH [of st1] obtain B where B: "written (fold (on_url_match P ds) ms st1) = written st1 @ B"
    and Bw: "\<forall>w\<in>set B. \<exists>m\<in>set ms. \<exists>v. new_URL P (grp m 1) = Some v \<and> inScope ds (hostname v) \<and>
        (w = SubdomainFinding (hostname v) \<or> w = UrlFinding (href v))"
    by blast
  obtain A where A: "written st1 = written st @ A"
    and Aw: "\<forall>w\<in>set A. \<exists>v. new_URL P (grp m 1) = Some v \<and> inScope ds (hostname v) \<and>
        (w = SubdomainFinding (hostname v) \<or> w = UrlFinding (href v))"
  proof (cases "new_URL P (grp m 1)")
    case None
    then have "written st1 = written st @ []" by (simp add: st1_def on_url_match_def)
    then show ?thesis using that [of "[]"] by simp
  next
    case (Some v)
    then have "written st1 = written st @ url_writes ds v st"
      by (simp add: st1_def on_url_match_def written_handleURL)
    moreover have "\<forall>w\<in>set (url_writes ds v st). \<exists>v. new_URL P (grp m 1) = Some v \<and> inScope ds (hostname v) \<and>
        (w = SubdomainFinding (hostname v) \<or> w = UrlFinding (href v))"
      using set_url_writes [OF Some] Some by blast
    ultimately show ?thesis using that by blast
  qed
  have "written (fold (on_url_match P ds) (m # ms) st) = written st @ (A @ B)"
    using A B by (simp add: st1_def)
  moreover have "\<forall>w\<in>set (A @ B). \<exists>m'\<in>set (m # ms). \<exists>v. new_URL P (grp m' 1) = Some v \<and> inScope ds (hostname v) \<and>
        (w = SubdomainFinding (hostname v) \<or> w = UrlFinding (href v))"
    using Aw Bw by auto
  ultimately show ?case by blast
qed

lemma fold_path_written:
  "written (fold (on_path_match u) ms st) = written st @ map (\<lambda>m. PathFinding (href u) (grp m 2)) ms"
  by (induction ms arbitrary: st) (simp_all add: on_path_match_def written_handlePath)

lemma matchAll_url_written:
  obtains st' B where "matchAll regex_url text (on_url_match P ds) st = Some st'"
    and "written st' = written st @ B" and "set B \<subseteq> url_findings_of P ds text"
proof -
  obtain ms where ms: "all_matches regex_url text = Some ms"
    and m: "matchAll regex_url text (on_url_match P ds) st = Some (fold (on_url_match P ds) ms st)"
    by (rule matchAll_url_Some [where 's = state]) blast
  from fold_url_written [of P ds ms st] obtain B where
    B: "written (fold (on_url_match P ds) ms st) = written st @ B"
    and Bw: "\<forall>w\<in>set B. \<exists>m\<in>set ms. \<exists>v. new_URL P (grp m 1) = Some v \<and> inScope ds (hostname v) \<and>
        (w = SubdomainFinding (hostname v) \<or> w = UrlFinding (href v))"
    by blast
  from ms have e: "extractUrls text = Some (map (\<lambda>m. grp m 1) ms)"
    by (simp add: extractUrls_def)
  have "set B \<subseteq> url_findings_of P ds text"
  proof
    fix w assume "w \<in> set B"
    with Bw obtain m v where "m \<in> set ms" "new_URL P (grp m 1) = Some v" "inScope ds (hostname v)"
      "w = SubdomainFinding (hostname v) \<or> w = UrlFinding (href v)"
      by blast
    with e show "w \<in> url_findings_of P ds text"
      unfolding url_findings_of_def by (auto intro!: exI [of _ "grp m 1"])
  qed
  with m B that show thesis by blast
qed

lemma matchAll_path_written:
  obtains st' ps where "matchAll regex_path text (on_path_match u) st = Some st'"
    and "extractPaths text = Some ps" and "written st' = written st @ map (PathFinding (href u)) ps"
proof -
  obtain ms where ms: "all_matches regex_path text = Some ms"
    and m: "matchAll regex_path text (on_path_match u) st = Some (fold (on_path_match u) ms st)"
    by (rule matchAll_path_Some [where 's = state]) blast
  from ms have e: "extractPaths text = Some (map (\<lambda>m. grp m 2) ms)"
    by (simp add: extractPaths_def)
  have "written (fold (on_path_match u) ms st) = written st @ map (PathFinding (href u)) (map (\<lambda>m. grp m 2) ms)"
    by (simp add: fold_path_written comp_def)
  with m e that show thesis by blast
qed

lemma response_head_parsed:
  assumes "new_URL P (resp_url resp) = Some u"
  obtains st1 B where
    "response_head P cfg resp st = Some (st1, if skips_body P cfg u then None else Some u)"
    and "matchAll regex_url (JSON_stringify P (resp_headers resp)) (on_url_match P (domains cfg))
           (handleURL (domains cfg) u st) = Some st1"
    and "written st1 = written st @ url_writes (domains cfg) u st @ B"
    and "set B \<subseteq> url_findings_of P (domains cfg) (JSON_stringify P (resp_headers resp))"
proof -
  obtain st1 B where m: "matchAll regex_url (JSON_stringify P (resp_headers resp)) (on_url_match P (domains cfg))
           (handleURL (domains cfg) u st) = Some st1"
    and w: "written st1 = written (handleURL (domains cfg) u st) @ B"
    and B: "set B \<subseteq> url_findings_of P (domains cfg) (JSON_stringify P (resp_headers resp))"
    by (rule matchAll_url_written)
  from assms m have "response_head P cfg resp st = Some (st1, if skips_body P cfg u then None else Some u)"
    by (simp add: response_head_def skips_body_def Let_def)
  moreover from w have "written st1 = written st @ url_writes (domains cfg) u st @ B"
    by (simp add: written_handleURL)
  ultimately show thesis using that m B by blast
qed

lemma response_body_text:
  obtains st' C ps where "response_body P cfg u (Some text) st = Some st'"
    and "written st' = written st @ C @ map (PathFinding (href u)) ps"
    and "set C \<subseteq> url_findings_of P (domains cfg) text"
    and "extractPaths text = Some ps"
proof -
  obtain st1 C where m: "matchAll regex_url text (on_url_match P (domains cfg)) st = Some st1"
    and w: "written st1 = written st @ C" and C: "set C \<subseteq> url_findings_of P (domains cfg) text"
    by (rule matchAll_url_written)
  obtain st2 ps where m2: "matchAll regex_path text (on_path_match u) st1 = Some st2"
    and e: "extractPaths text = Some ps" and w2: "written st2 = written st1 @ map (PathFinding (href u)) ps"
    by (rule matchAll_path_written)
  from m m2 have "response_body P cfg u (Some text) st = Some st2"
    by (simp add: response_body_def)
  moreover from w w2 have "written st2 = written st @ C @ map (PathFinding (href u)) ps" by simp
  ultimately show thesis using that C e by blast
qed


lemma matchAll_preserves:
  assumes "matchAll r s cb st = Some st'" and "\<And>m st. I st \<Longrightarrow> I (cb m st)" and "I st"
  shows "I st'"
proof -
  from assms(1) obtain ms where "st' = fold cb ms st"
    by (auto simp: matchAll_fold)
  with fold_preserves [of I cb st ms] assms(2,3) show ?thesis by blast
qed

lemma dedup_inv_response_head:
  assumes "response_head P cfg resp st = Some (st', x)" and "dedup_inv st"
  shows "dedup_inv st'"
proof (cases "new_URL P (resp_url resp)")
  case None
  with assms show ?thesis by (simp add: response_head_def)
next
  case (Some u)
  then obtain st1 where h: "response_head P cfg resp st = Some (st1, if skips_body P cfg u then None else Some u)"
    and m: "matchAll regex_url (JSON_stringify P (resp_headers resp)) (on_url_match P (domains cfg))
           (handleURL (domains cfg) u st) = Some st1"
    by (rule response_head_parsed)
  from h assms(1) have "st1 = st'" by simp
  moreover from m have "dedup_inv st1"
    by (rule matchAll_preserves) (simp_all add: dedup_inv_on_url_match dedup_inv_handleURL assms(2))
  ultimately show ?thesis by simp
qed

lemma dedup_inv_response_body:
  assumes "response_body P cfg u body st = Some st'" and "dedup_inv st"
  shows "dedup_inv st'"
proof (cases body)
  case None
  with assms show ?thesis by (simp add: response_body_def)
next
  case (Some t)
  with assms(1) obtain st1 where m1: "matchAll regex_url t (on_url_match P (domains cfg)) st = Some st1"
    and m2: "matchAll regex_path t (on_path_match u) st1 = Some st'"
    by (auto simp: response_body_def split: option.splits)
  from m1 have i1: "dedup_inv st1"
    by (rule matchAll_preserves) (simp_all add: dedup_inv_on_url_match assms(2))
  from m2 show ?thesis
    by (rule matchAll_preserves) (simp_all add: dedup_inv_on_path_match i1)
qed

lemma dedup_inv_do_step:
  assumes "do_step P cfg x st = Some st'" and "dedup_inv st"
  shows "dedup_inv st'"
proof (cases x)
  case (Event resp)
  with assms(1) obtain y where "response_head P cfg resp st = Some (st', y)" by auto
  then show ?thesis using assms(2) by (rule dedup_inv_response_head)
next
  case (Settled u body)
  with assms show ?thesis by (auto intro: dedup_inv_response_body)
qed

lemma dedup_inv_run_steps:
  "run_steps P cfg xs st = Some st' \<Longrightarrow> dedup_inv st \<Longrightarrow> dedup_inv st'"
proof (induction xs arbitrary: st)
  case Nil
  then show ?case by simp
next
  case (Cons x xs)
  from Cons.prems(1) obtain st1 where s: "do_step P cfg x st = Some st1"
    and r: "run_steps P cfg xs st1 = Some st'"
    by (auto split: option.splits)
  from s Cons.prems(2) have "dedup_inv st1" by (rule dedup_inv_do_step)
  with r show ?case by (rule Cons.IH)
qed

lemma response_head_total: "\<exists>y. response_head P cfg resp st = Some y"
proof (cases "new_URL P (resp_url resp)")
  case None
  then show ?thesis by (simp add: response_head_def)
next
  case (Some u)
  then show ?thesis by (rule response_head_parsed) blast
qed

lemma response_body_total: "\<exists>st'. response_body P cfg u body st = Some st'"
proof (cases body)
  case None
  then show ?thesis by (simp add: response_body_def)
next
  case (Some t)
  show ?thesis unfolding Some by (rule response_body_text) blast
qed

lemma do_step_total: "\<exists>st'. do_step P cfg x st = Some st'"
proof (cases x)
  case (Event resp)
  with response_head_total [of P cfg resp st] show ?thesis by auto
next
  case (Settled u body)
  with response_body_total [of P cfg u body st] show ?thesis by auto
qed

lemma run_steps_total: "\<exists>st'. run_steps P cfg xs st = Some st'"
proof (induction xs arbitrary: st)
  case Nil
  show ?case by simp
next
  case (Cons x xs)
  from do_step_total obtain st1 where "do_step P cfg x st = Some st1" by blast
  with Cons.IH [of st1] show ?case by simp
qed

lemma handleResponse_total: "\<exists>st'. handleResponse P cfg resp st = Some st'"
proof -
  from response_head_total obtain st1 y where h: "response_head P cfg resp st = Some (st1, y)"
    by (metis surj_pair)
  show ?thesis
  proof (cases y)
    case None
    with h show ?thesis by (simp add: handleResponse_def)
  next
    case (Some u)
    with h response_body_total [of P cfg u "resp_text resp" st1] show ?thesis
      by (simp add: handleResponse_def)
  qed
qed

lemma handleURL_twice:
  assumes inv: "dedup_inv st" and sc: "inScope ds (hostname u)" and eq: "hostname u' = hostname u"
  shows "written (handleURL ds u' (handleURL ds u st)) =
           written st @ (if hostname u \<in> uniqueDomains st then [] else [SubdomainFinding (hostname u)])
             @ [UrlFinding (href u), UrlFinding (href u')]"
    and "count_list (written (handleURL ds u' (handleURL ds u st))) (SubdomainFinding (hostname u)) = 1"
proof -
  show w: "written (handleURL ds u' (handleURL ds u st)) =
           written st @ (if hostname u \<in> uniqueDomains st then [] else [SubdomainFinding (hostname u)])
             @ [UrlFinding (href u), UrlFinding (href u')]"
    using sc eq by (simp add: written_handleURL uniqueDomains_handleURL url_writes_def)
  from inv have m: "hostname u \<in> uniqueDomains st \<longleftrightarrow> SubdomainFinding (hostname u) \<in> set (written st)"
    and c: "count_list (written st) (SubdomainFinding (hostname u)) \<le> 1"
    by (simp_all add: dedup_inv_def)
  show "count_list (written (handleURL ds u' (handleURL ds u st))) (SubdomainFinding (hostname u)) = 1"
  proof (cases "hostname u \<in> uniqueDomains st")
    case True
    with m have "count_list (written st) (SubdomainFinding (hostname u)) \<noteq> 0"
      using count_list_0_iff by metis
    with c True show ?thesis by (simp add: w Finding_distinct)
  next
    case False
    with m have "count_list (written st) (SubdomainFinding (hostname u)) = 0"
      by (simp add: count_list_0)
    with False show ?thesis by (simp add: w Finding_distinct)
  qed
qed

lemma handleResponse_unparsed:
  assumes "new_URL P (resp_url resp) = None"
  shows "response_head P cfg resp st = Some (st, None)" and "handleResponse P cfg resp st = Some st"
  using assms by (simp_all add: response_head_def handleResponse_def)

lemma handleResponse_structure:
  assumes "new_URL P (resp_url resp) = Some u"
  obtains st' B C D where "handleResponse P cfg resp st = Some st'"
    and "written st' = written st @ url_writes (domains cfg) u st @ B @ C @ D"
    and "set B \<subseteq> url_findings_of P (domains cfg) (JSON_stringify P (resp_headers resp))"
    and "skips_body P cfg u \<or> resp_text resp = None \<longrightarrow> C = [] \<and> D = []"
    and "\<forall>t. \<not> skips_body P cfg u \<and> resp_text resp = Some t \<longrightarrow>
           set C \<subseteq> url_findings_of P (domains cfg) t \<and>
           (\<exists>ps. extractPaths t = Some ps \<and> D = map (PathFinding (href u)) ps)"
proof -
  from assms obtain st1 B where
    h: "response_head P cfg resp st = Some (st1, if skips_body P cfg u then None else Some u)"
    and w1: "written st1 = written st @ url_writes (domains cfg) u st @ B"
    and B: "set B \<subseteq> url_findings_of P (domains cfg) (JSON_stringify P (resp_headers resp))"
    by (rule response_head_parsed)
  show thesis
  proof (cases "skips_body P cfg u \<or> resp_text resp = None")
    case True
    with h have "handleResponse P cfg resp st = Some st1"
      by (auto simp: handleResponse_def response_body_def)
    moreover from w1 have "written st1 = written st @ url_writes (domains cfg) u st @ B @ [] @ []"
      by simp
    ultimately show thesis using B
    proof (rule that)
      show "skips_body P cfg u \<or> resp_text resp = None \<longrightarrow> [] = [] \<and> [] = []" by simp
      show "\<forall>t. \<not> skips_body P cfg u \<and> resp_text resp = Some t \<longrightarrow>
           set [] \<subseteq> url_findings_of P (domains cfg) t \<and>
           (\<exists>ps. extractPaths t = Some ps \<and> [] = map (PathFinding (href u)) ps)"
        using True by auto
    qed
  next
    case False
    then obtain t where t: "resp_text resp = Some t" and ns: "\<not> skips_body P cfg u" by auto
    obtain st2 C ps where b: "response_body P cfg u (Some t) st1 = Some st2"
      and w2: "written st2 = written st1 @ C @ map (PathFinding (href u)) ps"
      and C: "set C \<subseteq> url_findings_of P (domains cfg) t"
      and e: "extractPaths t = Some ps"
      by (rule response_body_text)
    from h ns t b have "handleResponse P cfg resp st = Some st2"
      by (simp add: handleResponse_def)
    moreover from w1 w2 have "written st2 = written st @ url_writes (domains cfg) u st @ B @ C @ map (PathFinding (href u)) ps"
      by simp
    ultimately show thesis using B
    proof (rule that)
      show "skips_body P cfg u \<or> resp_text resp = None \<longrightarrow> C = [] \<and> map (PathFinding (href u)) ps = []"
        using False by auto
      show "\<forall>t. \<not> skips_body P cfg u \<and> resp_text resp = Some t \<longrightarrow>
           set C \<subseteq> url_findings_of P (domains cfg) t \<and>
           (\<exists>ps'. extractPaths t = Some ps' \<and> map (PathFinding (href u)) ps = map (PathFinding (href u)) ps')"
        using t C e by auto
    qed
  qed
qed

lemma url_findings_of_D:
  assumes "w \<in> url_findings_of P ds t"
  shows "\<exists>raw v. new_URL P raw = Some v \<and> inScope ds (hostname v) \<and>
           (w = SubdomainFinding (hostname v) \<or> w = UrlFinding (href v))"
  using assms unfolding url_findings_of_def by blast

lemma url_writes_D:
  assumes "w \<in> set (url_writes ds u st)"
  shows "inScope ds (hostname u) \<and> (w = SubdomainFinding (hostname u) \<or> w = UrlFinding (href u))"
  using assms by (auto simp: url_writes_def split: if_splits)

lemma fst_Finding [simp]:
  "fst (SubdomainFinding h) = Subdomains" "fst (UrlFinding x) = Urls" "fst (PathFinding y z) = Paths"
  by (simp_all add: SubdomainFinding_def UrlFinding_def PathFinding_def)

lemma emitted_append: "written st' = written st @ xs \<Longrightarrow> emitted st st' = xs"
  by (simp add: emitted_def)

lemma fold_url_spec:
  "written (fold (on_url_match P ds) ms st) =
     written st @ spec_url_findings P ds (uniqueDomains st) (map (\<lambda>m. grp m 1) ms)"
proof (induction ms arbitrary: st)
  case Nil
  show ?case by simp
next
  case (Cons m ms)
  show ?case
  proof (cases "new_URL P (grp m 1)")
    case None
    then have "on_url_match P ds m st = st" by (simp add: on_url_match_def)
    with None Cons.IH [of st] show ?thesis by simp
  next
    case (Some v)
    then have o: "on_url_match P ds m st = handleURL ds v st" by (simp add: on_url_match_def)
    from Cons.IH [of "handleURL ds v st"] o Some show ?thesis
      by (simp add: written_handleURL uniqueDomains_handleURL url_writes_def)
  qed
qed

lemma spec_url_findings_mem:
  "raw \<in> set raws \<Longrightarrow> new_URL P raw = Some v \<Longrightarrow> inScope ds (hostname v) \<Longrightarrow>
   UrlFinding (href v) \<in> set (spec_url_findings P ds seen raws)"
proof (induction raws arbitrary: seen)
  case Nil
  then show ?case by simp
next
  case (Cons r raws)
  show ?case
  proof (cases "raw = r")
    case True
    with Cons.prems show ?thesis by simp
  next
    case False
    with Cons.prems have "raw \<in> set raws" by simp
    from Cons.IH [OF this Cons.prems(2,3)]
    have "\<And>seen. UrlFinding (href v) \<in> set (spec_url_findings P ds seen raws)" .
    then show ?thesis by (simp split: option.splits)
  qed
qed

lemma response_head_spec:
  assumes "new_URL P (resp_url resp) = Some u"
  obtains st1 raws where
    "extractUrls (JSON_stringify P (resp_headers resp)) = Some raws"
    and "response_head P cfg resp st = Some (st1, if skips_body P cfg u then None else Some u)"
    and "matchAll regex_url (JSON_stringify P (resp_headers resp)) (on_url_match P (domains cfg))
           (handleURL (domains cfg) u st) = Some st1"
    and "written st1 = written st @
           spec_url_findings P (domains cfg) (uniqueDomains st) (resp_url resp # raws)"
proof -
  obtain ms where ms: "all_matches regex_url (JSON_stringify P (resp_headers resp)) = Some ms"
    and m: "matchAll regex_url (JSON_stringify P (resp_headers resp)) (on_url_match P (domains cfg))
        (handleURL (domains cfg) u st) = Some (fold (on_url_match P (domains cfg)) ms (handleURL (domains cfg) u st))"
    by (rule matchAll_url_Some [where 's = state]) blast
  define st1 where "st1 = fold (on_url_match P (domains cfg)) ms (handleURL (domains cfg) u st)"
  define raws where "raws = map (\<lambda>m. grp m 1) ms"
  from ms have e: "extractUrls (JSON_stringify P (resp_headers resp)) = Some raws"
    by (simp add: extractUrls_def raws_def)
  from assms m have h: "response_head P cfg resp st = Some (st1, if skips_body P cfg u then None else Some u)"
    by (simp add: response_head_def skips_body_def Let_def st1_def)
  have "written st1 = written (handleURL (domains cfg) u st) @
      spec_url_findings P (domains cfg) (uniqueDomains (handleURL (domains cfg) u st)) raws"
    unfolding st1_def raws_def by (rule fold_url_spec)
  with assms have w: "written st1 = written st @
           spec_url_findings P (domains cfg) (uniqueDomains st) (resp_url resp # raws)"
    by (simp add: written_handleURL uniqueDomains_handleURL url_writes_def)
  from m have m': "matchAll regex_url (JSON_stringify P (resp_headers resp)) (on_url_match P (domains cfg))
           (handleURL (domains cfg) u st) = Some st1"
    by (simp add: st1_def)
  from e h m' w show thesis by (rule that)
qed

section \<open>The response handler: scope, deduplication, short-circuit, order\<close>

text \<open>
  C7. When the URL of a response does not parse, the handler returns at once: it does
  not go on to the headers or to \<open>resp.text()\<close>, the state is unchanged, so nothing is
  written for the event, and the run goes on with the steps that follow, which all
  return.
\<close>

theorem unparsed_response_skipped:
  "new_URL P (resp_url resp) = None \<longrightarrow>
     response_head P cfg resp st = Some (st, None)
     \<and> handleResponse P cfg resp st = Some st
     \<and> run_steps P cfg (Event resp # steps) st = run_steps P cfg steps st
     \<and> (\<exists>st'. run_steps P cfg steps st = Some st')"
proof
  assume a: "new_URL P (resp_url resp) = None"
  then have h: "response_head P cfg resp st = Some (st, None)"
    and r: "handleResponse P cfg resp st = Some st"
    by (rule handleResponse_unparsed)+
  from h have "run_steps P cfg (Event resp # steps) st = run_steps P cfg steps st" by simp
  with h r run_steps_total [of P cfg steps st]
  show "response_head P cfg resp st = Some (st, None)
     \<and> handleResponse P cfg resp st = Some st
     \<and> run_steps P cfg (Event resp # steps) st = run_steps P cfg steps st
     \<and> (\<exists>st'. run_steps P cfg steps st = Some st')"
    by blast
qed

text \<open>C7 at a response whose URL has no scheme, with headers and a body that hold URLs.\<close>

theorem unparsed_response_skipped_witness:
  "new_URL example_platform (resp_url bad_response) = None
   \<and> handleResponse example_platform example_config bad_response initial = Some initial
   \<and> map_option written (run_steps example_platform example_config [Event bad_response, Event evil_response] initial) =
       map_option written (run_steps example_platform example_config [Event evil_response] initial)"
proof -
  have a: "new_URL example_platform (resp_url bad_response) = None"
    by (simp add: example_platform_def bad_response_def)
  with unparsed_response_skipped [of example_platform bad_response example_config initial "[Event evil_response]"]
  show ?thesis by simp
qed

text \<open>
  C5. For a response whose URL parses: the handler reaches \<open>resp.text()\<close> only when
  the extension of the URL path is empty, or the list of extensions is empty, or the
  extension is in the list; it reaches it exactly when the extension is empty or in
  the list. When the extension is not empty and not in the list, the handler returns
  before \<open>resp.text()\<close>, whatever the body is. What it has written then is exactly
  what the specification's URL handling gives for the response's own URL followed by
  the URLs extracted from the headers: in particular the url line of the response's
  own URL, when its hostname is in scope, and the url line of every header URL that
  parses to a hostname in scope. No line is written to the paths stream.
\<close>

theorem extension_short_circuit:
  "new_URL P (resp_url resp) = Some u \<longrightarrow>
     (\<forall>st1 v. response_head P cfg resp st = Some (st1, Some v) \<longrightarrow>
        path_ext P (pathname u) = [] \<or> extensions cfg = [] \<or>
        path_ext P (pathname u) \<in> set (extensions cfg))
     \<and> ((\<exists>st1. response_head P cfg resp st = Some (st1, Some u)) \<longleftrightarrow>
          (path_ext P (pathname u) = [] \<or> path_ext P (pathname u) \<in> set (extensions cfg)))
     \<and> (path_ext P (pathname u) \<noteq> [] \<and> path_ext P (pathname u) \<notin> set (extensions cfg) \<longrightarrow>
        (\<exists>st1 raws. extractUrls (JSON_stringify P (resp_headers resp)) = Some raws
           \<and> matchAll regex_url (JSON_stringify P (resp_headers resp))
                 (on_url_match P (domains cfg)) (handleURL (domains cfg) u st) = Some st1
           \<and> response_head P cfg resp st = Some (st1, None)
           \<and> (\<forall>body. handleResponse P cfg (resp\<lparr>resp_text := body\<rparr>) st = Some st1)
           \<and> handleResponse P cfg resp st = Some st1
           \<and> (\<forall>w\<in>set (emitted st st1). fst w \<noteq> Paths)
           \<and> emitted st st1 =
                spec_url_findings P (domains cfg) (uniqueDomains st) (resp_url resp # raws)
           \<and> (inScope (domains cfg) (hostname u) \<longrightarrow> UrlFinding (href u) \<in> set (emitted st st1))
           \<and> (\<forall>raw v. raw \<in> set raws \<and> new_URL P raw = Some v \<and> inScope (domains cfg) (hostname v) \<longrightarrow>
                 UrlFinding (href v) \<in> set (emitted st st1))))"
proof (intro impI conjI allI)
  fix st1 v
  assume p: "new_URL P (resp_url resp) = Some u"
    and h: "response_head P cfg resp st = Some (st1, Some v)"
  from p obtain st2 where "response_head P cfg resp st = Some (st2, if skips_body P cfg u then None else Some u)"
    by (rule response_head_parsed)
  with h have "\<not> skips_body P cfg u" by (auto split: if_splits)
  then show "path_ext P (pathname u) = [] \<or> extensions cfg = [] \<or>
        path_ext P (pathname u) \<in> set (extensions cfg)"
    by (auto simp: skips_body_def)
next
  assume p: "new_URL P (resp_url resp) = Some u"
  from p obtain st2 where h: "response_head P cfg resp st = Some (st2, if skips_body P cfg u then None else Some u)"
    by (rule response_head_parsed)
  show "(\<exists>st1. response_head P cfg resp st = Some (st1, Some u)) \<longleftrightarrow>
          (path_ext P (pathname u) = [] \<or> path_ext P (pathname u) \<in> set (extensions cfg))"
  proof (cases "skips_body P cfg u")
    case True
    with h show ?thesis by (simp add: skips_body_def)
  next
    case False
    with h have "\<exists>st1. response_head P cfg resp st = Some (st1, Some u)" by simp
    with False show ?thesis by (auto simp: skips_body_def)
  qed
next
  assume p: "new_URL P (resp_url resp) = Some u"
    and s: "path_ext P (pathname u) \<noteq> [] \<and> path_ext P (pathname u) \<notin> set (extensions cfg)"
  then have sk: "skips_body P cfg u" by (simp add: skips_body_def)
  from p obtain st1 raws where
    e: "extractUrls (JSON_stringify P (resp_headers resp)) = Some raws"
    and h: "response_head P cfg resp st = Some (st1, if skips_body P cfg u then None else Some u)"
    and m: "matchAll regex_url (JSON_stringify P (resp_headers resp)) (on_url_match P (domains cfg))
           (handleURL (domains cfg) u st) = Some st1"
    and w: "written st1 = written st @
           spec_url_findings P (domains cfg) (uniqueDomains st) (resp_url resp # raws)"
    by (rule response_head_spec)
  from h sk have h': "response_head P cfg resp st = Some (st1, None)" by simp
  have hb: "response_head P cfg (resp\<lparr>resp_text := body\<rparr>) st = response_head P cfg resp st" for body
    by (simp add: response_head_def split: option.splits)
  from h' hb have all: "\<forall>body. handleResponse P cfg (resp\<lparr>resp_text := body\<rparr>) st = Some st1"
    by (simp add: handleResponse_def)
  from h' have one: "handleResponse P cfg resp st = Some st1"
    by (simp add: handleResponse_def)
  from w have em: "emitted st st1 =
      spec_url_findings P (domains cfg) (uniqueDomains st) (resp_url resp # raws)"
    by (rule emitted_append)
  from p obtain st1' B where
    h2: "response_head P cfg resp st = Some (st1', if skips_body P cfg u then None else Some u)"
    and w2: "written st1' = written st @ url_writes (domains cfg) u st @ B"
    and B: "set B \<subseteq> url_findings_of P (domains cfg) (JSON_stringify P (resp_headers resp))"
    by (rule response_head_parsed)
  from h h2 have "st1' = st1" by simp
  with w2 have e2: "emitted st st1 = url_writes (domains cfg) u st @ B"
    by (simp add: emitted_def)
  have np: "\<forall>w\<in>set (emitted st st1). fst w \<noteq> Paths"
  proof
    fix x assume "x \<in> set (emitted st st1)"
    with e2 have "x \<in> set (url_writes (domains cfg) u st) \<or> x \<in> set B" by auto
    then show "fst x \<noteq> Paths"
    proof
      assume "x \<in> set (url_writes (domains cfg) u st)"
      from url_writes_D [OF this] show ?thesis by auto
    next
      assume "x \<in> set B"
      with B have "x \<in> url_findings_of P (domains cfg) (JSON_stringify P (resp_headers resp))" by blast
      from url_findings_of_D [OF this] show ?thesis by auto
    qed
  qed
  have own: "inScope (domains cfg) (hostname u) \<longrightarrow> UrlFinding (href u) \<in> set (emitted st st1)"
  proof
    assume sc: "inScope (domains cfg) (hostname u)"
    have "resp_url resp \<in> set (resp_url resp # raws)" by simp
    from spec_url_findings_mem [OF this p sc] em
    show "UrlFinding (href u) \<in> set (emitted st st1)" by simp
  qed
  have hdr: "\<forall>raw v. raw \<in> set raws \<and> new_URL P raw = Some v \<and> inScope (domains cfg) (hostname v) \<longrightarrow>
                 UrlFinding (href v) \<in> set (emitted st st1)"
  proof (intro allI impI)
    fix raw v
    assume a: "raw \<in> set raws \<and> new_URL P raw = Some v \<and> inScope (domains cfg) (hostname v)"
    then have "raw \<in> set (resp_url resp # raws)" by simp
    from spec_url_findings_mem [OF this] a em
    show "UrlFinding (href v) \<in> set (emitted st st1)" by simp
  qed
  from e m h' all one np em own hdr
  show "\<exists>st1 raws. extractUrls (JSON_stringify P (resp_headers resp)) = Some raws
           \<and> matchAll regex_url (JSON_stringify P (resp_headers resp))
                 (on_url_match P (domains cfg)) (handleURL (domains cfg) u st) = Some st1
           \<and> response_head P cfg resp st = Some (st1, None)
           \<and> (\<forall>body. handleResponse P cfg (resp\<lparr>resp_text := body\<rparr>) st = Some st1)
           \<and> handleResponse P cfg resp st = Some st1
           \<and> (\<forall>w\<in>set (emitted st st1). fst w \<noteq> Paths)
           \<and> emitted st st1 =
                spec_url_findings P (domains cfg) (uniqueDomains st) (resp_url resp # raws)
           \<and> (inScope (domains cfg) (hostname u) \<longrightarrow> UrlFinding (href u) \<in> set (emitted st st1))
           \<and> (\<forall>raw v. raw \<in> set raws \<and> new_URL P raw = Some v \<and> inScope (domains cfg) (hostname v) \<longrightarrow>
                 UrlFinding (href v) \<in> set (emitted st st1))"
    apply -
    apply (rule exI [of _ st1])
    apply (rule exI [of _ raws])
    apply (intro conjI)
            apply assumption+
    done
qed

text \<open>
  C5 at a response for \<open>/logo.png\<close> with the list of extensions \<open>[.js]\<close>, whose header
  holds a URL of the response's own host and whose body holds a URL and a path.
\<close>

theorem extension_short_circuit_witness:
  "new_URL example_platform (resp_url own_host_png) =
     Some \<lparr>href = ''https://app.example.com/logo.png'', hostname = ''app.example.com'', pathname = ''/logo.png''\<rparr>
   \<and> path_ext example_platform ''/logo.png'' = ''.png''
   \<and> ''.png'' \<notin> set (extensions example_config)
   \<and> extractUrls (JSON_stringify example_platform (resp_headers own_host_png)) =
       Some [''https://app.example.com/page'']
   \<and> (\<exists>st1. handleResponse example_platform example_config own_host_png initial = Some st1
          \<and> handleResponse example_platform example_config (own_host_png\<lparr>resp_text := None\<rparr>) initial = Some st1
          \<and> emitted initial st1 =
              [SubdomainFinding ''app.example.com'', UrlFinding ''https://app.example.com/logo.png'',
               UrlFinding ''https://app.example.com/page''])"
proof -
  define u where "u = \<lparr>href = ''https://app.example.com/logo.png'', hostname = ''app.example.com'', pathname = ''/logo.png''\<rparr>"
  have p: "new_URL example_platform (resp_url own_host_png) = Some u"
    by (simp add: example_platform_def png_response_def own_host_png_def u_def)
  have e: "path_ext example_platform (pathname u) = ''.png''"
    by (simp add: example_platform_def u_def)
  have n: "''.png'' \<notin> set (extensions example_config)"
    by (simp add: example_config_def)
  have x: "extractUrls (JSON_stringify example_platform (resp_headers own_host_png)) =
       Some [''https://app.example.com/page'']"
    by code_simp
  have sp: "spec_url_findings example_platform (domains example_config) (uniqueDomains initial)
       (resp_url own_host_png # [''https://app.example.com/page'']) =
     [SubdomainFinding ''app.example.com'', UrlFinding ''https://app.example.com/logo.png'',
      UrlFinding ''https://app.example.com/page'']"
    by code_simp
  from extension_short_circuit [of example_platform own_host_png u example_config initial] p e n
  obtain st1 raws where "extractUrls (JSON_stringify example_platform (resp_headers own_host_png)) = Some raws"
    and "handleResponse example_platform example_config own_host_png initial = Some st1"
    and "\<forall>body. handleResponse example_platform example_config (own_host_png\<lparr>resp_text := body\<rparr>) initial = Some st1"
    and "emitted initial st1 = spec_url_findings example_platform (domains example_config)
          (uniqueDomains initial) (resp_url own_host_png # raws)"
    by auto
  with x sp p e n show ?thesis unfolding u_def by auto
qed

text \<open>
  C8. The writes of one response handled to its end are, in this order: those of
  \<open>handleURL\<close> on the response's own URL, then lines for URLs matched in the headers,
  then lines for URLs matched in the body, then the lines of the paths matched in the
  body.
\<close>

theorem emission_order:
  "new_URL P (resp_url resp) = Some u \<longrightarrow>
     (\<exists>st' A B C D. handleResponse P cfg resp st = Some st'
        \<and> emitted st st' = A @ B @ C @ D
        \<and> A = url_writes (domains cfg) u st
        \<and> set B \<subseteq> url_findings_of P (domains cfg) (JSON_stringify P (resp_headers resp))
        \<and> (\<forall>w\<in>set C. \<exists>t. resp_text resp = Some t \<and> w \<in> url_findings_of P (domains cfg) t)
        \<and> (D = [] \<or> (\<exists>t ps. resp_text resp = Some t \<and> extractPaths t = Some ps \<and>
              D = map (PathFinding (href u)) ps)))"
proof
  assume "new_URL P (resp_url resp) = Some u"
  then obtain st' B C D where r: "handleResponse P cfg resp st = Some st'"
    and w: "written st' = written st @ url_writes (domains cfg) u st @ B @ C @ D"
    and B: "set B \<subseteq> url_findings_of P (domains cfg) (JSON_stringify P (resp_headers resp))"
    and sk: "skips_body P cfg u \<or> resp_text resp = None \<longrightarrow> C = [] \<and> D = []"
    and bd: "\<forall>t. \<not> skips_body P cfg u \<and> resp_text resp = Some t \<longrightarrow>
           set C \<subseteq> url_findings_of P (domains cfg) t \<and>
           (\<exists>ps. extractPaths t = Some ps \<and> D = map (PathFinding (href u)) ps)"
    by (rule handleResponse_structure)
  from w have e: "emitted st st' = url_writes (domains cfg) u st @ B @ C @ D"
    by (rule emitted_append)
  have C: "\<forall>w\<in>set C. \<exists>t. resp_text resp = Some t \<and> w \<in> url_findings_of P (domains cfg) t"
    using sk bd by (cases "resp_text resp") auto
  have D: "D = [] \<or> (\<exists>t ps. resp_text resp = Some t \<and> extractPaths t = Some ps \<and>
              D = map (PathFinding (href u)) ps)"
    using sk bd by (cases "resp_text resp") auto
  from r e B C D
  show "\<exists>st' A B C D. handleResponse P cfg resp st = Some st'
        \<and> emitted st st' = A @ B @ C @ D
        \<and> A = url_writes (domains cfg) u st
        \<and> set B \<subseteq> url_findings_of P (domains cfg) (JSON_stringify P (resp_headers resp))
        \<and> (\<forall>w\<in>set C. \<exists>t. resp_text resp = Some t \<and> w \<in> url_findings_of P (domains cfg) t)
        \<and> (D = [] \<or> (\<exists>t ps. resp_text resp = Some t \<and> extractPaths t = Some ps \<and>
              D = map (PathFinding (href u)) ps))"
    by blast
qed


text \<open>C8 at a response with a URL in its headers, and a URL and a path in its body.\<close>

theorem emission_order_witness:
  "new_URL example_platform
      (resp_url (page_response\<lparr>resp_headers := [(''location'', ''https://static.example.com/x'')]\<rparr>)) =
     Some \<lparr>href = ''https://app.example.com/page'', hostname = ''app.example.com'', pathname = ''/page''\<rparr>
   \<and> (\<exists>st' A B C D.
         handleResponse example_platform example_config
           (page_response\<lparr>resp_headers := [(''location'', ''https://static.example.com/x'')]\<rparr>) initial = Some st'
         \<and> emitted initial st' = A @ B @ C @ D
         \<and> set B \<subseteq> url_findings_of example_platform (domains example_config)
               (JSON_stringify example_platform [(''location'', ''https://static.example.com/x'')])
         \<and> written st' =
              [SubdomainFinding ''app.example.com'', UrlFinding ''https://app.example.com/page'',
               SubdomainFinding ''static.example.com'', UrlFinding ''https://static.example.com/x'',
               SubdomainFinding ''cdn.example.com'', UrlFinding ''https://cdn.example.com/a.js'',
               PathFinding ''https://app.example.com/page'' ''/api/v1/users''])"
proof -
  define r where "r = page_response\<lparr>resp_headers := [(''location'', ''https://static.example.com/x'')]\<rparr>"
  define u where "u = \<lparr>href = ''https://app.example.com/page'', hostname = ''app.example.com'', pathname = ''/page''\<rparr>"
  have p: "new_URL example_platform (resp_url r) = Some u"
    by (simp add: example_platform_def page_response_def r_def u_def)
  have w: "map_option written (handleResponse example_platform example_config r initial) =
      Some [SubdomainFinding ''app.example.com'', UrlFinding ''https://app.example.com/page'',
               SubdomainFinding ''static.example.com'', UrlFinding ''https://static.example.com/x'',
               SubdomainFinding ''cdn.example.com'', UrlFinding ''https://cdn.example.com/a.js'',
               PathFinding ''https://app.example.com/page'' ''/api/v1/users'']"
    unfolding r_def by code_simp
  have hd: "resp_headers r = [(''location'', ''https://static.example.com/x'')]"
    by (simp add: r_def)
  from emission_order [of example_platform r u example_config initial] p
  obtain st' A B C D where "handleResponse example_platform example_config r initial = Some st'"
    and "emitted initial st' = A @ B @ C @ D"
    and "set B \<subseteq> url_findings_of example_platform (domains example_config)
               (JSON_stringify example_platform (resp_headers r))"
    by blast
  with w p hd show ?thesis unfolding r_def u_def by auto
qed

text \<open>
  C1, as stated, fails: a response from \<open>evil.org\<close>, which is not in the scope of
  \<open>example.com\<close>, with the body \<open>"/a/b"\<close>, has a line written to the paths stream.
\<close>

theorem out_of_scope_path_emitted:
  "map_option written (handleResponse example_platform example_config evil_response initial) =
     Some [PathFinding ''https://evil.org/'' ''/a/b'']
   \<and> map_option hostname (new_URL example_platform (resp_url evil_response)) = Some ''evil.org''
   \<and> \<not> inScope (domains example_config) ''evil.org''"
proof (intro conjI)
  show "map_option written (handleResponse example_platform example_config evil_response initial) =
     Some [PathFinding ''https://evil.org/'' ''/a/b'']"
    by code_simp
  show "map_option hostname (new_URL example_platform (resp_url evil_response)) = Some ''evil.org''"
    by code_simp
  show "\<not> inScope (domains example_config) ''evil.org''"
    by code_simp
qed

text \<open>
  C1, amended. Every line that handling a response writes to the subdomains or the
  urls stream is the hostname or the href of a parsed URL whose hostname is in scope.
  A line written to the paths stream is a path matched in the body of the response,
  with the href of the response's URL as its source; no scope test applies to it.
\<close>

theorem emitted_findings_scope:
  "handleResponse P cfg resp st = Some st' \<and> w \<in> set (emitted st st') \<longrightarrow>
     (fst w \<noteq> Paths \<longrightarrow>
        (\<exists>raw v. new_URL P raw = Some v \<and> inScope (domains cfg) (hostname v) \<and>
           (w = SubdomainFinding (hostname v) \<or> w = UrlFinding (href v))))
     \<and> (fst w = Paths \<longrightarrow>
        (\<exists>u t ps p. new_URL P (resp_url resp) = Some u \<and> resp_text resp = Some t \<and>
           extractPaths t = Some ps \<and> p \<in> set ps \<and> w = PathFinding (href u) p))"
proof
  assume a: "handleResponse P cfg resp st = Some st' \<and> w \<in> set (emitted st st')"
  show "(fst w \<noteq> Paths \<longrightarrow>
        (\<exists>raw v. new_URL P raw = Some v \<and> inScope (domains cfg) (hostname v) \<and>
           (w = SubdomainFinding (hostname v) \<or> w = UrlFinding (href v))))
     \<and> (fst w = Paths \<longrightarrow>
        (\<exists>u t ps p. new_URL P (resp_url resp) = Some u \<and> resp_text resp = Some t \<and>
           extractPaths t = Some ps \<and> p \<in> set ps \<and> w = PathFinding (href u) p))"
  proof (cases "new_URL P (resp_url resp)")
    case None
    then have "handleResponse P cfg resp st = Some st" by (rule handleResponse_unparsed)
    with a have "st' = st" by simp
    with a show ?thesis by (simp add: emitted_def)
  next
    case (Some u)
    then obtain st2 B C D where r: "handleResponse P cfg resp st = Some st2"
      and wr: "written st2 = written st @ url_writes (domains cfg) u st @ B @ C @ D"
      and B: "set B \<subseteq> url_findings_of P (domains cfg) (JSON_stringify P (resp_headers resp))"
      and sk: "skips_body P cfg u \<or> resp_text resp = None \<longrightarrow> C = [] \<and> D = []"
      and bd: "\<forall>t. \<not> skips_body P cfg u \<and> resp_text resp = Some t \<longrightarrow>
           set C \<subseteq> url_findings_of P (domains cfg) t \<and>
           (\<exists>ps. extractPaths t = Some ps \<and> D = map (PathFinding (href u)) ps)"
      by (rule handleResponse_structure)
    from r a have "st2 = st'" by simp
    with wr have "emitted st st' = url_writes (domains cfg) u st @ B @ C @ D"
      by (simp add: emitted_def)
    with a consider (own) "w \<in> set (url_writes (domains cfg) u st)" | (hdr) "w \<in> set B"
      | (body) "w \<in> set C" | (path) "w \<in> set D"
      by auto
    then show ?thesis
    proof cases
      case own
      from url_writes_D [OF this] Some show ?thesis by auto
    next
      case hdr
      with B have "w \<in> url_findings_of P (domains cfg) (JSON_stringify P (resp_headers resp))" by blast
      from url_findings_of_D [OF this] show ?thesis by auto
    next
      case body
      with sk have ns: "\<not> skips_body P cfg u" and "resp_text resp \<noteq> None" by auto
      then obtain t where t: "resp_text resp = Some t" by auto
      with ns bd body have "w \<in> url_findings_of P (domains cfg) t" by blast
      from url_findings_of_D [OF this] show ?thesis by auto
    next
      case path
      with sk have ns: "\<not> skips_body P cfg u" and "resp_text resp \<noteq> None" by auto
      then obtain t where t: "resp_text resp = Some t" by auto
      with ns bd obtain ps where ps: "extractPaths t = Some ps" "D = map (PathFinding (href u)) ps"
        by blast
      with path obtain p where "p \<in> set ps" "w = PathFinding (href u) p" by auto
      with Some t ps show ?thesis by auto
    qed
  qed
qed

text \<open>The amended C1 at a subdomain line and a path line of the example response.\<close>

theorem emitted_findings_scope_witness:
  "\<exists>st'. handleResponse example_platform example_config page_response initial = Some st'
     \<and> SubdomainFinding ''cdn.example.com'' \<in> set (emitted initial st')
     \<and> PathFinding ''https://app.example.com/page'' ''/api/v1/users'' \<in> set (emitted initial st')
     \<and> (\<exists>raw v. new_URL example_platform raw = Some v \<and> inScope (domains example_config) (hostname v) \<and>
           (SubdomainFinding ''cdn.example.com'' = SubdomainFinding (hostname v) \<or>
            SubdomainFinding ''cdn.example.com'' = UrlFinding (href v)))
     \<and> (\<exists>u t ps p. new_URL example_platform (resp_url page_response) = Some u \<and>
           resp_text page_response = Some t \<and> extractPaths t = Some ps \<and> p \<in> set ps \<and>
           PathFinding ''https://app.example.com/page'' ''/api/v1/users'' = PathFinding (href u) p)"
proof -
  have w: "map_option written (handleResponse example_platform example_config page_response initial) =
      Some [SubdomainFinding ''app.example.com'', UrlFinding ''https://app.example.com/page'',
            SubdomainFinding ''cdn.example.com'', UrlFinding ''https://cdn.example.com/a.js'',
            PathFinding ''https://app.example.com/page'' ''/api/v1/users'']"
    by code_simp
  then obtain st' where r: "handleResponse example_platform example_config page_response initial = Some st'"
    and wr: "written st' = [SubdomainFinding ''app.example.com'', UrlFinding ''https://app.example.com/page'',
            SubdomainFinding ''cdn.example.com'', UrlFinding ''https://cdn.example.com/a.js'',
            PathFinding ''https://app.example.com/page'' ''/api/v1/users'']"
    by auto
  from wr have e: "emitted initial st' = written st'" by (simp add: emitted_def initial_def)
  from e wr have m1: "SubdomainFinding ''cdn.example.com'' \<in> set (emitted initial st')"
    and m2: "PathFinding ''https://app.example.com/page'' ''/api/v1/users'' \<in> set (emitted initial st')"
    by simp_all
  from emitted_findings_scope [of example_platform example_config page_response initial st'
      "SubdomainFinding ''cdn.example.com''"] r m1
  have c1: "\<exists>raw v. new_URL example_platform raw = Some v \<and> inScope (domains example_config) (hostname v) \<and>
           (SubdomainFinding ''cdn.example.com'' = SubdomainFinding (hostname v) \<or>
            SubdomainFinding ''cdn.example.com'' = UrlFinding (href v))"
    by simp
  from emitted_findings_scope [of example_platform example_config page_response initial st'
      "PathFinding ''https://app.example.com/page'' ''/api/v1/users''"] r m2
  have c2: "\<exists>u t ps p. new_URL example_platform (resp_url page_response) = Some u \<and>
           resp_text page_response = Some t \<and> extractPaths t = Some ps \<and> p \<in> set ps \<and>
           PathFinding ''https://app.example.com/page'' ''/api/v1/users'' = PathFinding (href u) p"
    by simp
  from r m1 m2 c1 c2 show ?thesis by blast
qed


text \<open>
  C3. In every state that a run reaches from the initial state, by any interleaving of
  response events and settled bodies, a hostname is in \<open>uniqueDomains\<close> exactly when its
  line was written to the subdomains stream, and that line was written at most once.
  Two calls of \<open>handleURL\<close> in such a state, with URLs of the same in-scope hostname,
  leave exactly one subdomain line for it in the run, and write two url lines (and
  the subdomain line before them when the hostname is new). Every run returns.
\<close>

theorem subdomain_emitted_once:
  "(run_steps P cfg steps initial = Some st \<longrightarrow>
      (h \<in> uniqueDomains st \<longleftrightarrow> SubdomainFinding h \<in> set (written st))
      \<and> count_list (written st) (SubdomainFinding h) \<le> 1
      \<and> (inScope (domains cfg) (hostname u) \<and> hostname u' = hostname u \<longrightarrow>
           count_list (written (handleURL (domains cfg) u' (handleURL (domains cfg) u st)))
             (SubdomainFinding (hostname u)) = 1
           \<and> emitted st (handleURL (domains cfg) u' (handleURL (domains cfg) u st)) =
               (if hostname u \<in> uniqueDomains st then [] else [SubdomainFinding (hostname u)])
               @ [UrlFinding (href u), UrlFinding (href u')]))
   \<and> (\<exists>st. run_steps P cfg steps initial = Some st)"
proof (intro conjI impI)
  assume r: "run_steps P cfg steps initial = Some st"
  then have inv: "dedup_inv st"
    using dedup_inv_initial by (rule dedup_inv_run_steps)
  then show "h \<in> uniqueDomains st \<longleftrightarrow> SubdomainFinding h \<in> set (written st)"
    and "count_list (written st) (SubdomainFinding h) \<le> 1"
    by (simp_all add: dedup_inv_def)
  assume s: "inScope (domains cfg) (hostname u) \<and> hostname u' = hostname u"
  then have sc: "inScope (domains cfg) (hostname u)" and eq: "hostname u' = hostname u"
    by simp_all
  from handleURL_twice(2) [OF inv sc eq]
  show "count_list (written (handleURL (domains cfg) u' (handleURL (domains cfg) u st)))
             (SubdomainFinding (hostname u)) = 1" .
  from handleURL_twice(1) [OF inv sc eq]
  show "emitted st (handleURL (domains cfg) u' (handleURL (domains cfg) u st)) =
               (if hostname u \<in> uniqueDomains st then [] else [SubdomainFinding (hostname u)])
               @ [UrlFinding (href u), UrlFinding (href u')]"
    by (rule emitted_append)
next
  show "\<exists>st. run_steps P cfg steps initial = Some st" by (rule run_steps_total)
qed

text \<open>
  C3 at a run of two responses from the same host, the body of the first settling
  after the event of the second.
\<close>

theorem subdomain_emitted_once_witness:
  "\<exists>st. run_steps example_platform example_config
          [Event page_response, Event png_response,
           Settled \<lparr>href = ''https://app.example.com/page'', hostname = ''app.example.com'', pathname = ''/page''\<rparr>
             (Some example_body)] initial = Some st
     \<and> written st =
         [SubdomainFinding ''app.example.com'', UrlFinding ''https://app.example.com/page'',
          UrlFinding ''https://app.example.com/logo.png'',
          SubdomainFinding ''static.example.com'', UrlFinding ''https://static.example.com/x'',
          SubdomainFinding ''cdn.example.com'', UrlFinding ''https://cdn.example.com/a.js'',
          PathFinding ''https://app.example.com/page'' ''/api/v1/users'']
     \<and> ''app.example.com'' \<in> uniqueDomains st
     \<and> count_list (written st) (SubdomainFinding ''app.example.com'') \<le> 1
     \<and> inScope (domains example_config) ''cdn.example.com''
     \<and> emitted st
           (handleURL (domains example_config)
              \<lparr>href = ''https://cdn.example.com/a.js'', hostname = ''cdn.example.com'', pathname = ''/a.js''\<rparr>
              (handleURL (domains example_config)
                 \<lparr>href = ''https://cdn.example.com/a.js'', hostname = ''cdn.example.com'', pathname = ''/a.js''\<rparr> st)) =
         [UrlFinding ''https://cdn.example.com/a.js'', UrlFinding ''https://cdn.example.com/a.js'']"
proof -
  define steps where "steps = [Event page_response, Event png_response,
           Settled \<lparr>href = ''https://app.example.com/page'', hostname = ''app.example.com'', pathname = ''/page''\<rparr>
             (Some example_body)]"
  define u where "u = \<lparr>href = ''https://cdn.example.com/a.js'', hostname = ''cdn.example.com'', pathname = ''/a.js''\<rparr>"
  have w: "map_option written (run_steps example_platform example_config steps initial) =
      Some [SubdomainFinding ''app.example.com'', UrlFinding ''https://app.example.com/page'',
          UrlFinding ''https://app.example.com/logo.png'',
          SubdomainFinding ''static.example.com'', UrlFinding ''https://static.example.com/x'',
          SubdomainFinding ''cdn.example.com'', UrlFinding ''https://cdn.example.com/a.js'',
          PathFinding ''https://app.example.com/page'' ''/api/v1/users'']"
    unfolding steps_def by code_simp
  then obtain st where r: "run_steps example_platform example_config steps initial = Some st"
    and wr: "written st = [SubdomainFinding ''app.example.com'', UrlFinding ''https://app.example.com/page'',
          UrlFinding ''https://app.example.com/logo.png'',
          SubdomainFinding ''static.example.com'', UrlFinding ''https://static.example.com/x'',
          SubdomainFinding ''cdn.example.com'', UrlFinding ''https://cdn.example.com/a.js'',
          PathFinding ''https://app.example.com/page'' ''/api/v1/users'']"
    by auto
  have sc: "inScope (domains example_config) (hostname u)"
    unfolding u_def by code_simp
  from subdomain_emitted_once [of example_platform example_config steps st "''app.example.com''" u u] r sc
  have a: "''app.example.com'' \<in> uniqueDomains st \<longleftrightarrow> SubdomainFinding ''app.example.com'' \<in> set (written st)"
    and b: "count_list (written st) (SubdomainFinding ''app.example.com'') \<le> 1"
    and c: "emitted st (handleURL (domains example_config) u (handleURL (domains example_config) u st)) =
               (if hostname u \<in> uniqueDomains st then [] else [SubdomainFinding (hostname u)])
               @ [UrlFinding (href u), UrlFinding (href u)]"
    by simp_all
  from subdomain_emitted_once [of example_platform example_config steps st "''cdn.example.com''" u u] r
  have d: "''cdn.example.com'' \<in> uniqueDomains st \<longleftrightarrow> SubdomainFinding ''cdn.example.com'' \<in> set (written st)"
    by simp
  from a wr have a': "''app.example.com'' \<in> uniqueDomains st" by simp
  from d wr have d': "''cdn.example.com'' \<in> uniqueDomains st" by simp
  from c d' have c': "emitted st (handleURL (domains example_config) u (handleURL (domains example_config) u st)) =
      [UrlFinding ''https://cdn.example.com/a.js'', UrlFinding ''https://cdn.example.com/a.js'']"
    by (simp add: u_def)
  from sc have sc': "inScope (domains example_config) ''cdn.example.com''" by (simp add: u_def)
  from r wr a' b sc' c' show ?thesis unfolding steps_def u_def by blast
qed

end
